theory Spec2Isabelle
  imports Main
begin

section \<open>PHP values and arrays (includes/Config.php)\<close>

text \<open>
  A PHP array is an ordered map whose keys are integers or strings; a string key that
  is a decimal integer is stored as an integer key, so the keys the merge tells apart
  with \<open>is_string\<close> are the constructors of \<open>key\<close>. An array is an association list
  in iteration order; PHP keeps its keys distinct, which the theorems below ask for
  as \<open>distinct (array_keys a)\<close>. Scalars are null, booleans, integers and strings
  (floats and objects take the same branch of \<open>arrayReplaceSanely\<close> as these).
\<close>

datatype scalar = SNull | SBool bool | SInt int | SStr string

datatype key = IntKey int | StrKey string

datatype val = Scalar scalar | Arr "(key \<times> val) list"

type_synonym php_array = "(key \<times> val) list"

text \<open>PHP 8 raises \<open>TypeError\<close> when a builtin that expects an array gets something
  else; JavaScript raises \<open>TypeError\<close> when a property of \<open>undefined\<close> is read.\<close>

datatype error = TypeError

definition array_keys :: "php_array \<Rightarrow> key list" where
  "array_keys a = map fst a"

fun is_string :: "key \<Rightarrow> bool" where
  "is_string (StrKey s) = True"
| "is_string (IntKey i) = False"

text \<open>\<open>Config::isAssoc\<close>: \<open>(bool)count( array_filter( array_keys( $array ), 'is_string' ) )\<close>.\<close>

definition isAssoc :: "php_array \<Rightarrow> bool" where
  "isAssoc a = (length (filter is_string (array_keys a)) \<noteq> 0)"

text \<open>The assignment \<open>$a[$k] = $v\<close> (and JavaScript's \<open>o[k] = v\<close> on own properties):
  an existing key keeps its position and gets the new value, a new key is appended.\<close>

fun assign :: "('k \<times> 'v) list \<Rightarrow> 'k \<Rightarrow> 'v \<Rightarrow> ('k \<times> 'v) list" where
  "assign [] k v = [(k, v)]"
| "assign ((k', v') # rest) k v =
     (if k' = k then (k', v) # rest else (k', v') # assign rest k v)"

text \<open>\<open>array_diff_key( $a, $b )\<close>: the entries of \<open>$a\<close> whose key is no key of \<open>$b\<close>.\<close>

definition array_diff_key :: "php_array \<Rightarrow> php_array \<Rightarrow> php_array" where
  "array_diff_key a b = filter (\<lambda>(k, v). k \<notin> set (array_keys b)) a"

text \<open>\<open>array_merge\<close> walks its arguments in order into a fresh array: a value under a
  string key is assigned under that key, a value under an integer key is appended
  under the next free index, counted from zero (integer keys are renumbered).\<close>

fun array_merge_into :: "php_array \<Rightarrow> nat \<Rightarrow> php_array \<Rightarrow> php_array" where
  "array_merge_into dest n [] = dest"
| "array_merge_into dest n ((IntKey i, v) # src) =
     array_merge_into (dest @ [(IntKey (int n), v)]) (Suc n) src"
| "array_merge_into dest n ((StrKey s, v) # src) =
     array_merge_into (assign dest (StrKey s) v) n src"

definition array_merge :: "php_array \<Rightarrow> php_array \<Rightarrow> php_array" where
  "array_merge a b = array_merge_into [] 0 (a @ b)"

text \<open>The keys \<open>array_merge\<close> stores a sequence of keys under, from the free index \<open>n\<close>
  on: a string key stays, the integer keys become \<open>n\<close>, \<open>n + 1\<close>, ...\<close>

fun renumber :: "nat \<Rightarrow> key list \<Rightarrow> key list" where
  "renumber n [] = []"
| "renumber n (IntKey i # ks) = IntKey (int n) # renumber (Suc n) ks"
| "renumber n (StrKey s # ks) = StrKey s # renumber n ks"

text \<open>
  \<open>Config::arrayReplaceSanely\<close>. \<open>replace_loop\<close> is the \<open>foreach\<close> over \<open>$array\<close> with
  \<open>$newArray\<close> as accumulator; \<open>map_of a1 key\<close> is \<open>array_key_exists\<close> together with
  the read \<open>$array1[$key]\<close>. An argument that is no array makes \<open>array_key_exists\<close> or
  \<open>array_diff_key\<close> raise.
\<close>

fun arrayReplaceSanely :: "val \<Rightarrow> val \<Rightarrow> error + val"
  and replace_loop :: "php_array \<Rightarrow> php_array \<Rightarrow> php_array \<Rightarrow> error + php_array"
where
  "arrayReplaceSanely (Arr a) (Arr a1) =
     (case replace_loop a a1 [] of
        Inl e \<Rightarrow> Inl e
      | Inr newArray \<Rightarrow> Inr (Arr (array_merge newArray (array_diff_key a1 a))))"
| "arrayReplaceSanely (Arr a) (Scalar s1) = Inl TypeError"
| "arrayReplaceSanely (Scalar s) v1 = Inl TypeError"
| "replace_loop [] a1 newArray = Inr newArray"
| "replace_loop ((key, value) # rest) a1 newArray =
     (case map_of a1 key of
        None \<Rightarrow> replace_loop rest a1 (assign newArray key value)
      | Some value1 \<Rightarrow>
          (case value of
             Arr sub \<Rightarrow>
               if isAssoc sub then
                 (case arrayReplaceSanely value value1 of
                    Inl e \<Rightarrow> Inl e
                  | Inr merged \<Rightarrow> replace_loop rest a1 (assign newArray key merged))
               else replace_loop rest a1 (assign newArray key value1)
           | Scalar s \<Rightarrow> replace_loop rest a1 (assign newArray key value1)))"

text \<open>
  The pairs of arguments on which the merge meets arrays only: both are arrays, and
  wherever the first holds an associative array under a key of the second, the two
  values under that key are such a pair again.
\<close>

fun mergeable :: "val \<Rightarrow> val \<Rightarrow> bool" where
  "mergeable (Arr a) (Arr a1) =
     (\<forall>(key, value) \<in> set a.
        case map_of a1 key of
          None \<Rightarrow> True
        | Some value1 \<Rightarrow>
            (case value of
               Arr sub \<Rightarrow> isAssoc sub \<longrightarrow> mergeable value value1
             | Scalar c \<Rightarrow> True))"
| "mergeable (Arr a) (Scalar c1) = False"
| "mergeable (Scalar c) v1 = False"

text \<open>
  An array that \<open>array_merge\<close> leaves as it is: its keys are distinct and its integer
  keys are 0, 1, 2, ... in their order. Every array whose keys are distinct strings is
  one, and so is every array that \<open>array_merge\<close> returns.
\<close>

definition renumbered :: "php_array \<Rightarrow> bool" where
  "renumbered a = (distinct (array_keys a) \<and> renumber 0 (array_keys a) = array_keys a)"

text \<open>
  A configuration value in which every array the merge goes into (every array with a
  string key) is renumbered and holds such values only.
\<close>

fun merge_stable :: "val \<Rightarrow> bool" where
  "merge_stable (Scalar c) = True"
| "merge_stable (Arr a) =
     (isAssoc a \<longrightarrow> renumbered a \<and> (\<forall>(k, v) \<in> set a. merge_stable v))"

text \<open>\<open>array_replace_recursive\<close> on two arrays: a replacement that is an array goes
  into an array already under the same key, every other replacement is assigned.\<close>

fun replace_recursive :: "php_array \<Rightarrow> php_array \<Rightarrow> php_array" where
  "replace_recursive dest [] = dest"
| "replace_recursive dest ((k, Scalar c) # src) =
     replace_recursive (assign dest k (Scalar c)) src"
| "replace_recursive dest ((k, Arr s) # src) =
     (case map_of dest k of
        Some (Arr d) \<Rightarrow> replace_recursive (assign dest k (Arr (replace_recursive d s))) src
      | _ \<Rightarrow> replace_recursive (assign dest k (Arr s)) src)"

fun array_replace_recursive :: "val \<Rightarrow> val \<Rightarrow> error + val" where
  "array_replace_recursive (Arr a) (Arr r) = Inr (Arr (replace_recursive a r))"
| "array_replace_recursive (Arr a) (Scalar c) = Inl TypeError"
| "array_replace_recursive (Scalar c) r = Inl TypeError"

subsection \<open>The configuration state of a process\<close>

text \<open>A campaign as \<open>Campaign::newFromName\<close> hands it out (\<open>None\<close> is its \<open>false\<close>).\<close>

record campaign =
  getIsEnabled :: bool
  getParsedConfig :: val

text \<open>What the process reads from outside \<open>Config\<close>: the array of
  \<open>UploadWizard.config.php\<close> and the campaign lookup.\<close>

record config_env =
  getDefaultConfig :: val
  newFromName :: "string \<Rightarrow> campaign option"

text \<open>The global \<open>$wgUploadWizardConfig\<close>, the static flag of \<open>getConfig\<close> and the
  static \<open>$urlConfig\<close>.\<close>

record config_state =
  wgUploadWizardConfig :: val
  mergedConfig :: bool
  urlConfig :: php_array

definition getCampaignConfig :: "config_env \<Rightarrow> string option \<Rightarrow> val" where
  "getCampaignConfig env campaignName =
     (case campaignName of
        None \<Rightarrow> Arr []
      | Some name \<Rightarrow>
          (case newFromName env name of
             None \<Rightarrow> Arr []
           | Some c \<Rightarrow> if getIsEnabled c then getParsedConfig c else Arr []))"

definition setUrlSetting :: "key \<Rightarrow> val \<Rightarrow> config_state \<Rightarrow> config_state" where
  "setUrlSetting name value st = st\<lparr>urlConfig := assign (urlConfig st) name value\<rparr>"

text \<open>\<open>Config::getConfig\<close>, returning the value or the error together with the state
  the call leaves behind.\<close>

definition merge_defaults :: "config_env \<Rightarrow> config_state \<Rightarrow> error + config_state" where
  "merge_defaults env st =
     (if \<not> mergedConfig st then
        (case arrayReplaceSanely (getDefaultConfig env) (wgUploadWizardConfig st) of
           Inl e \<Rightarrow> Inl e
         | Inr merged \<Rightarrow> Inr (st\<lparr>wgUploadWizardConfig := merged, mergedConfig := True\<rparr>))
      else Inr st)"

definition merge_campaign ::
  "config_env \<Rightarrow> string option \<Rightarrow> config_state \<Rightarrow> error + config_state" where
  "merge_campaign env campaignName st =
     (if campaignName \<noteq> None then
        (case arrayReplaceSanely (wgUploadWizardConfig st)
                (getCampaignConfig env campaignName) of
           Inl e \<Rightarrow> Inl e
         | Inr merged \<Rightarrow> Inr (st\<lparr>wgUploadWizardConfig := merged\<rparr>))
      else Inr st)"

definition getConfig ::
  "config_env \<Rightarrow> string option \<Rightarrow> config_state \<Rightarrow> (error + val) \<times> config_state" where
  "getConfig env campaignName st =
     (case merge_defaults env st of
        Inl e \<Rightarrow> (Inl e, st)
      | Inr st1 \<Rightarrow>
          (case merge_campaign env campaignName st1 of
             Inl e \<Rightarrow> (Inl e, st1)
           | Inr st2 \<Rightarrow>
               (array_replace_recursive (wgUploadWizardConfig st2) (Arr (urlConfig st2)),
                st2)))"

text \<open>
  Once the static flag is set, the global holds a renumbered array. This holds before
  the first call of \<open>getConfig\<close> and is kept by every call (lemma
  \<open>getConfig_base_invariant\<close>).
\<close>

definition base_invariant :: "config_state \<Rightarrow> bool" where
  "base_invariant st =
     (mergedConfig st \<longrightarrow>
        (case wgUploadWizardConfig st of Arr m \<Rightarrow> renumbered m | Scalar c \<Rightarrow> False))"

section \<open>The license group widget (resources/uw.LicenseGroup.js)\<close>

text \<open>
  A JavaScript string is a \<open>string\<close> whose characters are its code units below 256.
  \<open>String.prototype.trim\<close> removes white space and line terminators from both ends;
  below 256 these are TAB, LF, VT, FF, CR, SP and NBSP.
\<close>

definition is_whitespace :: "char \<Rightarrow> bool" where
  "is_whitespace c =
     (c \<in> set [CHR 0x09, CHR 0x0A, CHR 0x0B, CHR 0x0C, CHR 0x0D, CHR 0x20, CHR 0xA0])"

definition trim :: "string \<Rightarrow> string" where
  "trim s = rev (dropWhile is_whitespace (rev (dropWhile is_whitespace s)))"

text \<open>\<open>Array.prototype.join\<close> on an array of strings.\<close>

fun join :: "string \<Rightarrow> string list \<Rightarrow> string" where
  "join sep [] = []"
| "join sep [x] = x"
| "join sep (x # y # ys) = x @ sep @ join sep (y # ys)"

text \<open>\<open>Array.prototype.unshift\<close> with one argument.\<close>

definition unshift :: "'a \<Rightarrow> 'a list \<Rightarrow> 'a list" where
  "unshift x xs = x # xs"

text \<open>\<open>Array.prototype.map\<close> with a callback that may throw: the first exception ends
  the loop.\<close>

fun map_throwing :: "('a \<Rightarrow> error + 'b) \<Rightarrow> 'a list \<Rightarrow> error + 'b list" where
  "map_throwing f [] = Inr []"
| "map_throwing f (x # xs) =
     (case f x of
        Inl e \<Rightarrow> Inl e
      | Inr y \<Rightarrow> (case map_throwing f xs of Inl e \<Rightarrow> Inl e | Inr ys \<Rightarrow> Inr (y # ys)))"

subsection \<open>Objects and the order of \<open>Object.keys\<close>\<close>

text \<open>
  An object used as a map is the list of its own properties in insertion order
  (\<open>assign\<close> is \<open>o[k] = v\<close>). \<open>Object.keys\<close> lists the keys that are array indices
  first, in ascending numeric order, and then the other keys in insertion order. An
  array index is the canonical decimal string of an integer below \<open>2^32 - 1\<close>.
\<close>

type_synonym 'v js_object = "(string \<times> 'v) list"

definition is_digit :: "char \<Rightarrow> bool" where
  "is_digit c = (c \<in> set ''0123456789'')"

definition decimal_value :: "string \<Rightarrow> nat" where
  "decimal_value s = foldl (\<lambda>n c. 10 * n + (of_char c - 48)) 0 s"

definition is_array_index :: "string \<Rightarrow> bool" where
  "is_array_index s =
     (s \<noteq> [] \<and> list_all is_digit s \<and> (hd s \<noteq> CHR ''0'' \<or> s = ''0'')
      \<and> decimal_value s < 2 ^ 32 - 1)"

definition Object_keys :: "'v js_object \<Rightarrow> string list" where
  "Object_keys obj =
     sort_key decimal_value (filter is_array_index (map fst obj))
     @ filter (\<lambda>k. \<not> is_array_index k) (map fst obj)"

subsection \<open>Configuration and state of a group\<close>

text \<open>What the read \<open>mw.UploadWizard.config.licenses[ name ]\<close> evaluates to: \<open>None\<close> is
  \<open>undefined\<close>, and of a value only its property \<open>templates\<close> takes part in the
  wikitext.\<close>

record license_props =
  templates :: "string list option"

type_synonym registry = "string \<Rightarrow> license_props option"

text \<open>The \<open>config\<close> argument of \<open>uw.LicenseGroup\<close>.\<close>

record license_config =
  licenses :: "string list"
  template :: "string option"
  prependTemplates :: "string list option"

text \<open>A value of the map that \<open>getValue\<close> returns: a boolean or a string.\<close>

datatype js_value = JBool bool | JStr string

text \<open>
  What the read \<open>this.customInputs[ name ]\<close> evaluates to. \<open>customInputs\<close> starts as
  \<open>{}\<close> and \<open>createInput\<close> stores a text input under a name: \<open>TextInput\<close> is that
  input with the string its \<open>getValue\<close> returns (under \<open>__proto__\<close> the input becomes
  the prototype, and the read returns it). \<open>Absent\<close> is \<open>undefined\<close>. \<open>Inherited\<close> is
  a truthy value that is no text input: what the prototype chain gives for a name that
  was not stored, such as \<open>constructor\<close>, \<open>toString\<close> or \<open>__proto__\<close>; it has no method
  \<open>getValue\<close>.
\<close>

datatype property = Absent | TextInput string | Inherited

text \<open>
  The constructor builds \<open>this.group\<close> from \<open>this.type\<close>: a radio select for
  \<open>'radio'\<close>, a checkbox multiselect for \<open>'checkbox'\<close>. The state of the group is the
  data of what \<open>findSelectedItem\<close> (one option or \<open>null\<close>) or \<open>findSelectedItems\<close> (the
  selected options in their order) returns.
\<close>

datatype group_widget =
  RadioSelectWidget "string option"
| CheckboxMultiselectWidget "string list"

record license_group =
  config :: license_config
  customInputs :: "string \<Rightarrow> property"
  group :: group_widget

text \<open>The names of the licenses whose options are selected.\<close>

definition selected_names :: "license_group \<Rightarrow> string set" where
  "selected_names g =
     (case group g of
        RadioSelectWidget selected \<Rightarrow> set_option selected
      | CheckboxMultiselectWidget selected \<Rightarrow> set selected)"

text \<open>\<open>getLicenseInfo\<close>: the name together with the entry of the registry.\<close>

definition getLicenseInfo :: "registry \<Rightarrow> string \<Rightarrow> string \<times> license_props option" where
  "getLicenseInfo reg name = (name, reg name)"

text \<open>\<open>getTemplates\<close>: reading \<open>templates\<close> of an unknown license throws; the templates
  of a known one are copied (\<open>slice( 0 )\<close>).\<close>

definition getTemplates :: "registry \<Rightarrow> string \<Rightarrow> error + string list" where
  "getTemplates reg name =
     (case getLicenseInfo reg name of
        (licenseName, None) \<Rightarrow> Inl TypeError
      | (licenseName, Some props) \<Rightarrow>
          (case templates props of None \<Rightarrow> Inr [licenseName] | Some ts \<Rightarrow> Inr ts))"

definition getLicenceWikiText :: "license_config \<Rightarrow> registry \<Rightarrow> string \<Rightarrow> error + string" where
  "getLicenceWikiText cfg reg name =
     (case getTemplates reg name of
        Inl e \<Rightarrow> Inl e
      | Inr templates0 \<Rightarrow>
          (let templates1 =
                 (case prependTemplates cfg of
                    None \<Rightarrow> templates0
                  | Some ps \<Rightarrow> fold unshift ps templates0);
               templates2 =
                 (case template cfg of
                    None \<Rightarrow> templates1
                  | Some t \<Rightarrow> [join ''|'' (unshift t templates1)])
           in Inr (join '''' (map (\<lambda>t. ''{{'' @ t @ ''}}'') templates2))))"

text \<open>\<open>!this.customInputs[ name ] || this.customInputs[ name ].getValue()\<close>: calling
  \<open>getValue\<close> of a value that has no such method throws.\<close>

definition selected_value :: "(string \<Rightarrow> property) \<Rightarrow> string \<Rightarrow> error + js_value" where
  "selected_value inputs name =
     (case inputs name of
        Absent \<Rightarrow> Inr (JBool True)
      | TextInput text \<Rightarrow> Inr (JStr text)
      | Inherited \<Rightarrow> Inl TypeError)"

text \<open>
  The assignment \<open>result[ name ] = value\<close> of a boolean or a string to an object that
  began as \<open>{}\<close>: under the name \<open>__proto__\<close> it calls the setter the object
  inherits, which ignores a value that is no object; under every other name it sets an
  own property.
\<close>

definition set_property :: "js_value js_object \<Rightarrow> string \<Rightarrow> js_value \<Rightarrow> js_value js_object" where
  "set_property obj name value = (if name = ''__proto__'' then obj else assign obj name value)"

text \<open>The loop \<open>selected.forEach\<close> of \<open>getValue\<close>; an exception ends it.\<close>

fun set_selected ::
  "(string \<Rightarrow> property) \<Rightarrow> string list \<Rightarrow> js_value js_object \<Rightarrow> error + js_value js_object"
where
  "set_selected inputs [] result = Inr result"
| "set_selected inputs (name # selected) result =
     (case selected_value inputs name of
        Inl e \<Rightarrow> Inl e
      | Inr value \<Rightarrow> set_selected inputs selected (set_property result name value))"

definition getValue :: "license_group \<Rightarrow> error + js_value js_object" where
  "getValue g =
     (case group g of
        RadioSelectWidget selected \<Rightarrow>
          (case selected of
             None \<Rightarrow> Inr []
           | Some name \<Rightarrow>
               (case selected_value (customInputs g) name of
                  Inl e \<Rightarrow> Inl e
                | Inr value \<Rightarrow> Inr (set_property [] name value)))
      | CheckboxMultiselectWidget selected \<Rightarrow> set_selected (customInputs g) selected [])"

text \<open>The callback of \<open>getWikiText\<close> for one key of \<open>values\<close>.\<close>

definition licence_block ::
  "license_config \<Rightarrow> registry \<Rightarrow> js_value js_object \<Rightarrow> string \<Rightarrow> error + string" where
  "licence_block cfg reg values name =
     (case getLicenceWikiText cfg reg name of
        Inl e \<Rightarrow> Inl e
      | Inr wikiText \<Rightarrow>
          (case map_of values name of
             Some (JStr value) \<Rightarrow> Inr (wikiText @ [CHR 0x0A] @ trim value)
           | _ \<Rightarrow> Inr wikiText))"

text \<open>\<open>getWikiText\<close> after \<open>const values = this.getValue()\<close>, and \<open>getWikiText\<close>.\<close>

definition wikiTextOf ::
  "license_config \<Rightarrow> registry \<Rightarrow> js_value js_object \<Rightarrow> error + string" where
  "wikiTextOf cfg reg values =
     (case map_throwing (licence_block cfg reg values) (Object_keys values) of
        Inl e \<Rightarrow> Inl e
      | Inr wikiTexts \<Rightarrow> Inr (trim (join '''' wikiTexts)))"

definition getWikiText :: "registry \<Rightarrow> license_group \<Rightarrow> error + string" where
  "getWikiText reg g =
     (case getValue g of
        Inl e \<Rightarrow> Inl e
      | Inr values \<Rightarrow> wikiTextOf (config g) reg values)"

section \<open>Properties of the configuration merge\<close>

subsection \<open>Assignment and the loop over the base\<close>

lemma map_of_assign: "map_of (assign xs k v) = (map_of xs)(k \<mapsto> v)"
  by (induction xs) (auto simp: fun_eq_iff)

lemma assign_fresh: "k \<notin> fst ` set xs \<Longrightarrow> assign xs k v = xs @ [(k, v)]"
  by (induction xs) auto

lemma keys_assign:
  "map fst (assign xs k v) = (if k \<in> fst ` set xs then map fst xs else map fst xs @ [k])"
  by (induction xs) force+

lemma replace_loop_other:
  "replace_loop a a1 acc = Inr r \<Longrightarrow> k \<notin> fst ` set a \<Longrightarrow> map_of r k = map_of acc k"
proof (induction a arbitrary: acc)
  case Nil
  then show ?case by simp
next
  case (Cons p rest)
  obtain key "value" where p: "p = (key, value)" by (cases p)
  from Cons.prems(2) p have kne: "key \<noteq> k" and krest: "k \<notin> fst ` set rest" by auto
  from Cons.prems(1) p obtain x where "replace_loop rest a1 (assign acc key x) = Inr r"
    by (auto split: option.splits val.splits if_splits sum.splits)
  from Cons.IH[OF this krest] kne show ?case by (simp add: map_of_assign)
qed

lemma replace_loop_keys:
  "replace_loop a a1 acc = Inr r \<Longrightarrow> distinct (map fst a) \<Longrightarrow>
   fst ` set a \<inter> fst ` set acc = {} \<Longrightarrow> map fst r = map fst acc @ map fst a"
proof (induction a arbitrary: acc)
  case Nil
  then show ?case by simp
next
  case (Cons p rest)
  obtain key "value" where p: "p = (key, value)" by (cases p)
  from Cons.prems(1) p obtain x where x: "replace_loop rest a1 (assign acc key x) = Inr r"
    by (auto split: option.splits val.splits if_splits sum.splits)
  from Cons.prems(3) p have fresh: "key \<notin> fst ` set acc" by auto
  from Cons.prems(2) p have d: "distinct (map fst rest)" and nk: "key \<notin> fst ` set rest" by auto
  have disj: "fst ` set rest \<inter> fst ` set (assign acc key x) = {}"
    using Cons.prems(3) p nk by (auto simp: assign_fresh[OF fresh])
  from Cons.IH[OF x d disj] show ?case by (simp add: p assign_fresh[OF fresh])
qed

text \<open>What the loop stores under a key of the base.\<close>

lemma replace_loop_entry:
  "replace_loop a a1 acc = Inr r \<Longrightarrow> distinct (map fst a) \<Longrightarrow> (k, v) \<in> set a \<Longrightarrow>
   (case map_of a1 k of
      None \<Rightarrow> map_of r k = Some v
    | Some v1 \<Rightarrow>
        (case v of
           Arr sub \<Rightarrow> if isAssoc sub then (\<exists>m. arrayReplaceSanely v v1 = Inr m \<and> map_of r k = Some m)
                      else map_of r k = Some v1
         | Scalar c \<Rightarrow> map_of r k = Some v1))"
proof (induction a arbitrary: acc)
  case Nil
  then show ?case by simp
next
  case (Cons p rest)
  obtain key "value" where p: "p = (key, value)" by (cases p)
  from Cons.prems(2) p have d: "distinct (map fst rest)" and nk: "key \<notin> fst ` set rest" by auto
  show ?case
  proof (cases "(k, v) \<in> set rest")
    case True
    from Cons.prems(1) p obtain x where x: "replace_loop rest a1 (assign acc key x) = Inr r"
      by (auto split: option.splits val.splits if_splits sum.splits)
    from Cons.IH[OF x d True] show ?thesis .
  next
    case False
    with Cons.prems(3) p have kv: "key = k" "value = v" by auto
    with nk have nk': "k \<notin> fst ` set rest" by simp
    show ?thesis
      using Cons.prems(1) p kv
      by (auto split: option.splits val.splits if_splits sum.splits
          dest!: replace_loop_other[OF _ nk'] simp: map_of_assign)
  qed
qed

subsection \<open>\<open>array_merge\<close> and \<open>array_diff_key\<close>\<close>

lemma renumber_strings: "list_all is_string ks \<Longrightarrow> renumber n ks = ks"
  by (induction n ks rule: renumber.induct) auto

lemma renumber_str_mem: "StrKey s \<in> set (renumber n ks) \<longleftrightarrow> StrKey s \<in> set ks"
  by (induction n ks rule: renumber.induct) auto

lemma renumber_int_mem:
  "IntKey i \<in> set (renumber n ks) \<Longrightarrow>
   int n \<le> i \<and> i < int n + int (length (filter (\<lambda>k. \<not> is_string k) ks))"
  by (induction n ks rule: renumber.induct) auto

lemma renumber_distinct:
  "distinct (filter is_string ks) \<Longrightarrow> distinct (renumber n ks)"
  by (induction n ks rule: renumber.induct)
     (auto simp: renumber_str_mem dest: renumber_int_mem)

lemma renumber_append:
  "renumber n (ks @ ks') =
     renumber n ks @ renumber (n + length (filter (\<lambda>k. \<not> is_string k) ks)) ks'"
  by (induction n ks rule: renumber.induct) auto

lemma renumbered_strings:
  "distinct (array_keys a) \<Longrightarrow> list_all is_string (array_keys a) \<Longrightarrow> renumbered a"
  by (simp add: renumbered_def renumber_strings)

lemma merge_into_keys:
  "distinct (filter is_string (map fst src)) \<Longrightarrow>
   set (filter is_string (map fst src)) \<inter> fst ` set dest = {} \<Longrightarrow>
   map fst (array_merge_into dest n src) = map fst dest @ renumber n (map fst src)"
proof (induction dest n src rule: array_merge_into.induct)
  case (1 dest n)
  then show ?case by simp
next
  case (2 dest n i v src)
  then show ?case by auto
next
  case (3 dest n s v src)
  from 3(3) have fresh: "StrKey s \<notin> fst ` set dest" by auto
  have "set (filter is_string (map fst src)) \<inter> fst ` set (assign dest (StrKey s) v) = {}"
    using 3(2,3) by (auto simp: assign_fresh[OF fresh])
  with 3 show ?case by (auto simp: assign_fresh[OF fresh])
qed

text \<open>\<open>array_merge\<close> copies a renumbered source behind a destination it shares no key with.\<close>

lemma merge_into_renumbered_src:
  "renumber n (map fst src) = map fst src \<Longrightarrow> distinct (map fst src) \<Longrightarrow>
   set (map fst src) \<inter> fst ` set dest = {} \<Longrightarrow>
   array_merge_into dest n src = dest @ src"
proof (induction dest n src rule: array_merge_into.induct)
  case (1 dest n)
  then show ?case by simp
next
  case (2 dest n i v src)
  from 2(2) have i: "i = int n" and r: "renumber (Suc n) (map fst src) = map fst src" by auto
  have "set (map fst src) \<inter> fst ` set (dest @ [(IntKey (int n), v)]) = {}"
    using 2(3,4) i by auto
  with 2(1)[OF r] 2(3) i show ?case by simp
next
  case (3 dest n s v src)
  from 3(4) have fresh: "StrKey s \<notin> fst ` set dest" by auto
  have "set (map fst src) \<inter> fst ` set (assign dest (StrKey s) v) = {}"
    using 3(3,4) by (auto simp: assign_fresh[OF fresh])
  with 3 show ?case by (auto simp: assign_fresh[OF fresh])
qed

lemma array_merge_renumbered: "renumbered a \<Longrightarrow> array_merge a [] = a"
  using merge_into_renumbered_src[of 0 a "[]"]
  by (simp add: renumbered_def array_merge_def array_keys_def)

text \<open>What \<open>array_merge\<close> returns is renumbered.\<close>

lemma merge_into_result:
  "distinct (map fst dest) \<Longrightarrow> renumber 0 (map fst dest) = map fst dest \<Longrightarrow>
   length (filter (\<lambda>k. \<not> is_string k) (map fst dest)) = n \<Longrightarrow>
   distinct (map fst (array_merge_into dest n src))
   \<and> renumber 0 (map fst (array_merge_into dest n src)) = map fst (array_merge_into dest n src)"
proof (induction dest n src rule: array_merge_into.induct)
  case (1 dest n)
  then show ?case by simp
next
  case (2 dest n i v src)
  let ?dest = "dest @ [(IntKey (int n), v)]"
  have "IntKey (int n) \<notin> set (map fst dest)"
  proof
    assume "IntKey (int n) \<in> set (map fst dest)"
    with 2(3) have "IntKey (int n) \<in> set (renumber 0 (map fst dest))" by simp
    from renumber_int_mem[OF this] 2(4) show False by simp
  qed
  with 2(2) have d: "distinct (map fst ?dest)" by simp
  have r: "renumber 0 (map fst ?dest) = map fst ?dest"
    using 2(3,4) by (simp add: renumber_append)
  have c: "length (filter (\<lambda>k. \<not> is_string k) (map fst ?dest)) = Suc n"
    using 2(4) by simp
  from 2(1)[OF d r c] show ?case by simp
next
  case (3 dest n s v src)
  let ?dest = "assign dest (StrKey s) v"
  have d: "distinct (map fst ?dest)" using 3(2) by (simp add: keys_assign)
  have r: "renumber 0 (map fst ?dest) = map fst ?dest"
    using 3(3) by (simp add: keys_assign renumber_append)
  have c: "length (filter (\<lambda>k. \<not> is_string k) (map fst ?dest)) = n"
    using 3(4) by (simp add: keys_assign)
  from 3(1)[OF d r c] show ?case by simp
qed

lemma array_merge_result: "renumbered (array_merge a b)"
  using merge_into_result[of "[]" 0 "a @ b"]
  by (simp add: renumbered_def array_merge_def array_keys_def)

lemma arrayReplaceSanely_InrD:
  "arrayReplaceSanely x y = Inr r \<Longrightarrow>
   \<exists>a a1 newArray. x = Arr a \<and> y = Arr a1 \<and> replace_loop a a1 [] = Inr newArray
      \<and> r = Arr (array_merge newArray (array_diff_key a1 a))"
  by (cases x; cases y) (auto split: sum.splits)

lemma diff_key_keys:
  "map fst (array_diff_key a1 a) = filter (\<lambda>k. k \<notin> set (array_keys a)) (array_keys a1)"
  by (induction a1) (force simp: array_diff_key_def array_keys_def)+


subsection \<open>Merging an array with itself, and with the empty array\<close>

lemma replace_loop_same:
  assumes "\<And>k v. (k, v) \<in> set rest \<Longrightarrow>
             map_of a1 k = Some v \<and> (\<forall>sub. v = Arr sub \<longrightarrow> isAssoc sub \<longrightarrow> arrayReplaceSanely v v = Inr v)"
    and "distinct (map fst rest)" and "fst ` set rest \<inter> fst ` set acc = {}"
  shows "replace_loop rest a1 acc = Inr (acc @ rest)"
  using assms
proof (induction rest arbitrary: acc)
  case Nil
  then show ?case by simp
next
  case (Cons p rest)
  obtain key "value" where p: "p = (key, value)" by (cases p)
  from Cons.prems(3) p have fresh: "key \<notin> fst ` set acc" by auto
  from Cons.prems(2) p have d: "distinct (map fst rest)" and nk: "key \<notin> fst ` set rest" by auto
  have disj: "fst ` set rest \<inter> fst ` set (acc @ [(key, value)]) = {}"
    using Cons.prems(3) p nk by auto
  have step: "replace_loop rest a1 (acc @ [(key, value)]) = Inr ((acc @ [(key, value)]) @ rest)"
    by (rule Cons.IH[OF _ d disj]) (use Cons.prems(1) in auto)
  from Cons.prems(1)[of key "value"] p have
    look: "map_of a1 key = Some value" and
    sub: "\<And>sub. value = Arr sub \<Longrightarrow> isAssoc sub \<Longrightarrow> arrayReplaceSanely value value = Inr value"
    by auto
  show ?case
    using step look sub by (auto simp: p assign_fresh[OF fresh] split: val.splits)
qed

lemma idempotent_aux:
  "renumbered a \<Longrightarrow> (\<forall>(k, v) \<in> set a. merge_stable v) \<Longrightarrow> x = Arr a \<Longrightarrow>
   arrayReplaceSanely x x = Inr x"
proof (induction x arbitrary: a)
  case (Scalar c)
  then show ?case by simp
next
  case (Arr xs)
  then have xs: "xs = a" by simp
  from Arr.prems(1) have d: "distinct (map fst a)" by (simp add: renumbered_def array_keys_def)
  have entries: "map_of a k = Some v
      \<and> (\<forall>sub. v = Arr sub \<longrightarrow> isAssoc sub \<longrightarrow> arrayReplaceSanely v v = Inr v)"
    if mem: "(k, v) \<in> set a" for k v
  proof -
    from d mem have "map_of a k = Some v" by simp
    moreover have "arrayReplaceSanely v v = Inr v" if "v = Arr sub" "isAssoc sub" for sub
    proof -
      from Arr.prems(2) mem have "merge_stable v" by auto
      with that have "renumbered sub" "\<forall>(k, v) \<in> set sub. merge_stable v" by auto
      moreover from mem have "v \<in> Basic_BNFs.snds (k, v)" by simp
      ultimately show ?thesis using Arr.IH[of "(k, v)" v sub] mem xs that(1) by blast
    qed
    ultimately show ?thesis by blast
  qed
  have loop: "replace_loop a a [] = Inr a"
    using replace_loop_same[of a a "[]"] entries d by simp
  have "array_diff_key a a = []"
    unfolding array_diff_key_def array_keys_def filter_empty_conv by force
  with loop Arr.prems(1) show ?case by (simp add: xs array_merge_renumbered)
qed

lemma replace_loop_empty_overlay:
  "distinct (map fst a) \<Longrightarrow> fst ` set a \<inter> fst ` set acc = {} \<Longrightarrow>
   replace_loop a [] acc = Inr (acc @ a)"
proof (induction a arbitrary: acc)
  case Nil
  then show ?case by simp
next
  case (Cons p rest)
  obtain key "value" where p: "p = (key, value)" by (cases p)
  from Cons.prems(2) p have fresh: "key \<notin> fst ` set acc" by auto
  from Cons.prems p have "fst ` set rest \<inter> fst ` set (acc @ [(key, value)]) = {}" by auto
  with Cons.IH[of "acc @ [(key, value)]"] Cons.prems(1) p
  show ?case by (simp add: assign_fresh[OF fresh])
qed

lemma empty_overlay:
  "distinct (array_keys a) \<Longrightarrow> arrayReplaceSanely (Arr a) (Arr []) = Inr (Arr (array_merge a []))"
  using replace_loop_empty_overlay[of a "[]"] by (simp add: array_keys_def array_diff_key_def)


lemma empty_overlay_renumbered:
  "renumbered a \<Longrightarrow> arrayReplaceSanely (Arr a) (Arr []) = Inr (Arr a)"
  by (simp only: empty_overlay array_merge_renumbered renumbered_def)

lemma arrayReplaceSanely_result:
  "arrayReplaceSanely x y = Inr r \<Longrightarrow> \<exists>m. r = Arr m \<and> renumbered m"
  using arrayReplaceSanely_InrD[of x y r] array_merge_result by auto

subsection \<open>When the merge returns\<close>

text \<open>The merge returns an array exactly on the pairs that are \<open>mergeable\<close>; on all
  others it raises \<open>TypeError\<close>.\<close>

lemma returns_aux:
  "(mergeable x y \<longrightarrow> (\<exists>r. arrayReplaceSanely x y = Inr r))"
  "((\<forall>(key, value) \<in> set rest.
        case map_of a1 key of
          None \<Rightarrow> True
        | Some value1 \<Rightarrow>
            (case value of
               Arr sub \<Rightarrow> isAssoc sub \<longrightarrow> mergeable value value1
             | Scalar c \<Rightarrow> True)) \<longrightarrow> (\<exists>r. replace_loop rest a1 acc = Inr r))"
proof (induction x y and rest a1 acc rule: arrayReplaceSanely_replace_loop.induct)
  case (1 a a1)
  then show ?case by auto
next
  case (2 a s1)
  then show ?case by simp
next
  case (3 s v1)
  then show ?case by simp
next
  case (4 a1 newArray)
  then show ?case by simp
next
  case (5 key "value" rest a1 newArray)
  show ?case
  proof (cases "map_of a1 key")
    case None
    with 5(1) show ?thesis by auto
  next
    case (Some value1)
    show ?thesis
    proof (cases "value")
      case (Scalar c)
      with Some 5(2) show ?thesis by auto
    next
      case (Arr sub)
      show ?thesis
      proof (cases "isAssoc sub")
        case True
        show ?thesis
        proof
          assume H: "\<forall>(key, value) \<in> set ((key, value) # rest).
            case map_of a1 key of
              None \<Rightarrow> True
            | Some value1 \<Rightarrow>
                (case value of
                   Arr sub \<Rightarrow> isAssoc sub \<longrightarrow> mergeable value value1
                 | Scalar c \<Rightarrow> True)"
          with Some Arr True have "mergeable value value1" by simp
          with 5(3)[OF Some Arr True] obtain m where
            m: "arrayReplaceSanely value value1 = Inr m" by blast
          from 5(4)[OF Some Arr True m] H obtain r where
            "replace_loop rest a1 (assign newArray key m) = Inr r" by auto
          with Some Arr True m show "\<exists>r. replace_loop ((key, value) # rest) a1 newArray = Inr r"
            by simp
        qed
      next
        case False
        with Some Arr 5(5) show ?thesis by auto
      qed
    qed
  qed
qed

lemma loop_InrD:
  "replace_loop rest a1 acc = Inr r \<Longrightarrow> (key, value) \<in> set rest \<Longrightarrow>
   map_of a1 key = Some value1 \<Longrightarrow> value = Arr sub \<Longrightarrow> isAssoc sub \<Longrightarrow>
   \<exists>m. arrayReplaceSanely value value1 = Inr m"
proof (induction rest arbitrary: acc)
  case Nil
  then show ?case by simp
next
  case (Cons p rest)
  obtain k v where p: "p = (k, v)" by (cases p)
  show ?case
  proof (cases "(key, value) = (k, v)")
    case True
    with Cons.prems p show ?thesis by (auto split: sum.splits)
  next
    case False
    with Cons.prems(2) p have mem: "(key, value) \<in> set rest" by auto
    from Cons.prems(1) p obtain x where "replace_loop rest a1 (assign acc k x) = Inr r"
      by (auto split: option.splits val.splits if_splits sum.splits)
    from Cons.IH[OF this mem Cons.prems(3,4,5)] show ?thesis .
  qed
qed

lemma returns_mergeable:
  "arrayReplaceSanely x y = Inr r \<Longrightarrow> mergeable x y"
proof (induction x arbitrary: y r)
  case (Scalar c)
  then show ?case by simp
next
  case (Arr a)
  from arrayReplaceSanely_InrD[OF Arr.prems] obtain a1 newArray where
    y: "y = Arr a1" and loop: "replace_loop a a1 [] = Inr newArray" by auto
  have "mergeable value value1"
    if "(key, value) \<in> set a" "map_of a1 key = Some value1" "value = Arr sub" "isAssoc sub"
    for key "value" value1 sub
  proof -
    from loop_InrD[OF loop that] obtain m where "arrayReplaceSanely value value1 = Inr m" ..
    moreover have "value \<in> Basic_BNFs.snds (key, value)" by simp
    ultimately show ?thesis using Arr.IH that(1) by blast
  qed
  then show ?case unfolding y by (auto split: option.splits val.splits)
qed

lemma arrayReplaceSanely_returns:
  "(\<exists>r. arrayReplaceSanely x y = Inr r) \<longleftrightarrow> mergeable x y"
  using returns_aux(1) returns_mergeable by blast

subsection \<open>The entry at a position of the base\<close>

lemma length_renumber: "length (renumber n ks) = length ks"
  by (induction n ks rule: renumber.induct) auto

lemma renumber_nth_string:
  "i < length ks \<Longrightarrow> is_string (ks ! i) \<Longrightarrow> renumber n ks ! i = ks ! i"
proof (induction n ks arbitrary: i rule: renumber.induct)
  case (1 n)
  then show ?case by simp
next
  case (2 n j ks)
  then show ?case by (cases i) auto
next
  case (3 n s ks)
  then show ?case by (cases i) auto
qed

lemma assign_append_fresh:
  "k \<notin> fst ` set xs \<Longrightarrow> assign (xs @ ys) k v = xs @ assign ys k v"
  by (induction xs) auto

lemma merge_into_append:
  "array_merge_into dest n (xs @ ys) =
     array_merge_into (array_merge_into dest n xs)
       (n + length (filter (\<lambda>k. \<not> is_string k) (map fst xs))) ys"
  by (induction dest n xs rule: array_merge_into.induct) auto

text \<open>\<open>array_merge\<close> keeps a part of the destination that has no string key of the source.\<close>

lemma merge_into_prefix:
  "set (filter is_string (map fst src)) \<inter> fst ` set dest = {} \<Longrightarrow>
   \<exists>ext'. array_merge_into (dest @ ext) n src = dest @ ext'"
proof (induction src arbitrary: ext n)
  case Nil
  then show ?case by simp
next
  case (Cons p src)
  obtain k v where p: "p = (k, v)" by (cases p)
  from Cons.prems p have rest: "set (filter is_string (map fst src)) \<inter> fst ` set dest = {}"
    by (auto split: if_splits)
  show ?case
  proof (cases k)
    case (IntKey j)
    from Cons.IH[OF rest, of "ext @ [(IntKey (int n), v)]" "Suc n"] p IntKey
    show ?thesis by simp
  next
    case (StrKey s)
    with Cons.prems p have "StrKey s \<notin> fst ` set dest" by auto
    then have "assign (dest @ ext) (StrKey s) v = dest @ assign ext (StrKey s) v"
      by (rule assign_append_fresh)
    with Cons.IH[OF rest, of "assign ext (StrKey s) v" n] p StrKey
    show ?thesis by simp
  qed
qed

lemma merge_into_zip:
  "distinct (filter is_string (map fst src)) \<Longrightarrow>
   set (filter is_string (map fst src)) \<inter> fst ` set dest = {} \<Longrightarrow>
   array_merge_into dest n src = dest @ zip (renumber n (map fst src)) (map snd src)"
proof (induction dest n src rule: array_merge_into.induct)
  case (1 dest n)
  then show ?case by simp
next
  case (2 dest n i v src)
  then show ?case by auto
next
  case (3 dest n s v src)
  from 3(3) have fresh: "StrKey s \<notin> fst ` set dest" by auto
  have "set (filter is_string (map fst src)) \<inter> fst ` set (assign dest (StrKey s) v) = {}"
    using 3(2,3) by (auto simp: assign_fresh[OF fresh])
  with 3 show ?case by (auto simp: assign_fresh[OF fresh])
qed

text \<open>The entry of the result at a position of the base: the renumbered key of the
  position and the value the loop stored.\<close>

lemma merged_position:
  assumes loop: "replace_loop a a1 [] = Inr newArray" and d: "distinct (map fst a)"
    and i: "i < length a"
  shows "i < length (array_merge newArray (array_diff_key a1 a))
         \<and> array_merge newArray (array_diff_key a1 a) ! i
             = (renumber 0 (map fst a) ! i, snd (newArray ! i))"
proof -
  let ?P = "zip (renumber 0 (map fst newArray)) (map snd newArray)"
  from replace_loop_keys[OF loop d] have keys: "map fst newArray = map fst a" by simp
  then have len: "length newArray = length a" by (metis length_map)
  from d keys have "distinct (filter is_string (map fst newArray))" by simp
  then have P: "array_merge_into [] 0 newArray = ?P"
    using merge_into_zip[of newArray "[]" 0] by simp
  have "fst ` set ?P \<subseteq> set (renumber 0 (map fst newArray))"
    by (auto dest: set_zip_leftD)
  moreover have "k \<notin> set (renumber 0 (map fst a))"
    if "k \<in> set (filter is_string (map fst (array_diff_key a1 a)))" for k
  proof -
    from that have "is_string k" by simp
    then obtain s where s: "k = StrKey s" by (cases k) auto
    from that have "k \<notin> set (map fst a)"
      by (force simp: array_diff_key_def array_keys_def)
    with s show ?thesis by (simp add: renumber_str_mem)
  qed
  ultimately have
    "set (filter is_string (map fst (array_diff_key a1 a))) \<inter> fst ` set ?P = {}"
    using keys by auto
  from merge_into_prefix[OF this, of "[]"] obtain ext' where
    "array_merge_into ?P (0 + length (filter (\<lambda>k. \<not> is_string k) (map fst newArray)))
       (array_diff_key a1 a) = ?P @ ext'"
    by auto
  then have m: "array_merge newArray (array_diff_key a1 a) = ?P @ ext'"
    by (simp add: array_merge_def merge_into_append P)
  have lp: "length ?P = length a" by (simp add: length_renumber len)
  with i have "(?P @ ext') ! i = ?P ! i" by (simp add: nth_append)
  also have "\<dots> = (renumber 0 (map fst a) ! i, snd (newArray ! i))"
    using i len keys by (simp add: length_renumber)
  finally show ?thesis using m lp i by simp
qed

text \<open>The value the loop stored at a position of the base.\<close>

lemma replace_loop_position:
  assumes loop: "replace_loop a a1 [] = Inr newArray" and d: "distinct (map fst a)"
    and i: "i < length a" and w: "map_of newArray (fst (a ! i)) = Some w"
  shows "snd (newArray ! i) = w"
proof -
  from replace_loop_keys[OF loop d] have keys: "map fst newArray = map fst a" by simp
  then have len: "length newArray = length a" by (metis length_map)
  from keys i len have "fst (newArray ! i) = fst (a ! i)" by (metis nth_map)
  moreover from i len have "newArray ! i \<in> set newArray" by simp
  ultimately have "(fst (a ! i), snd (newArray ! i)) \<in> set newArray"
    by (metis prod.collapse)
  moreover from d keys have "distinct (map fst newArray)" by simp
  ultimately have "map_of newArray (fst (a ! i)) = Some (snd (newArray ! i))" by simp
  with w show ?thesis by simp
qed

lemma nth_map_of:
  "distinct (map fst m) \<Longrightarrow> i < length m \<Longrightarrow> m ! i = (k, v) \<Longrightarrow> map_of m k = Some v"
  by (metis map_of_is_SomeI nth_mem)

lemma kept_key:
  assumes "i < length a" and "a ! i = (k, v)"
    and "renumber 0 (array_keys a) ! i = k \<or> is_string k \<or> renumbered a"
  shows "renumber 0 (array_keys a) ! i = k"
proof -
  from assms(1,2) have ki: "array_keys a ! i = k" by (simp add: array_keys_def)
  from assms(3) consider "renumber 0 (array_keys a) ! i = k" | "is_string k" | "renumbered a"
    by blast
  then show ?thesis
  proof cases
    case 1
    then show ?thesis .
  next
    case 2
    with renumber_nth_string[of i "array_keys a" 0] assms(1) ki show ?thesis
      by (simp add: array_keys_def)
  next
    case 3
    with ki show ?thesis by (simp add: renumbered_def)
  qed
qed

section \<open>The claims about \<open>arrayReplaceSanely\<close>\<close>

text \<open>
  Claim C1, by position. Let \<open>base\<close> (with distinct keys) and \<open>overlay\<close> be arrays on
  which the merge meets arrays only, and let \<open>base\<close> hold at position \<open>i\<close>, under a key
  \<open>k\<close> that \<open>overlay\<close> has too, a scalar or an array without string keys. Then the
  merge returns an array that holds at position \<open>i\<close> the value of \<open>overlay\<close> under
  \<open>k\<close>, unchanged, under the key \<open>array_merge\<close> gives to this position (a string key
  itself, an integer key the number of integer keys of \<open>base\<close> before it). So the
  result maps \<open>k\<close> to the value of \<open>overlay\<close> whenever \<open>k\<close> is that key: for every
  string key, and for every key of a renumbered \<open>base\<close>.
\<close>

theorem arrayReplaceSanely_right_bias:
  assumes ok: "mergeable (Arr a) (Arr a1)"
    and d: "distinct (array_keys a)"
    and i: "i < length a" and e: "a ! i = (k, v)"
    and v1: "map_of a1 k = Some v1"
    and atom: "case v of Scalar c \<Rightarrow> True | Arr sub \<Rightarrow> \<not> isAssoc sub"
  shows "\<exists>m. arrayReplaceSanely (Arr a) (Arr a1) = Inr (Arr m)
           \<and> i < length m
           \<and> m ! i = (renumber 0 (array_keys a) ! i, v1)
           \<and> (renumber 0 (array_keys a) ! i = k \<or> is_string k \<or> renumbered a
                 \<longrightarrow> map_of m k = Some v1)"
proof -
  from ok returns_aux(1) obtain r where r: "arrayReplaceSanely (Arr a) (Arr a1) = Inr r"
    by blast
  from arrayReplaceSanely_InrD[OF r] obtain newArray where
    loop: "replace_loop a a1 [] = Inr newArray" and
    m: "r = Arr (array_merge newArray (array_diff_key a1 a))" by auto
  let ?m = "array_merge newArray (array_diff_key a1 a)"
  from d have d': "distinct (map fst a)" by (simp add: array_keys_def)
  from i e have mem: "(k, v) \<in> set a" by (metis nth_mem)
  from replace_loop_entry[OF loop d' mem] v1 atom
  have "map_of newArray k = Some v1" by (auto split: val.splits)
  with e have "snd (newArray ! i) = v1"
    using replace_loop_position[OF loop d' i] by simp
  with merged_position[OF loop d' i] have
    len: "i < length ?m" and pos: "?m ! i = (renumber 0 (array_keys a) ! i, v1)"
    by (simp_all add: array_keys_def)
  have "distinct (map fst ?m)"
    using array_merge_result[of newArray "array_diff_key a1 a"]
    by (simp add: renumbered_def array_keys_def)
  from nth_map_of[OF this len] pos kept_key[OF i e]
  have "renumber 0 (array_keys a) ! i = k \<or> is_string k \<or> renumbered a
          \<longrightarrow> map_of ?m k = Some v1" by auto
  with r m len pos show ?thesis by simp
qed

text \<open>The value under the key \<open>7\<close> and the list \<open>licenses\<close> of the base are
  replaced by the overlay's; the first is stored under the key \<open>0\<close>.\<close>

theorem right_bias_witness:
  "mergeable
     (Arr [(StrKey ''tutorial'', Arr [(StrKey ''skip'', Scalar (SBool False))]),
           (IntKey 7, Scalar (SStr ''x'')),
           (StrKey ''licenses'', Arr [(IntKey 0, Scalar (SStr ''cc-by'')),
                                      (IntKey 1, Scalar (SStr ''cc0''))])])
     (Arr [(StrKey ''licenses'', Arr [(IntKey 0, Scalar (SStr ''pd''))]),
           (IntKey 7, Scalar (SStr ''y''))])
   \<and> arrayReplaceSanely
     (Arr [(StrKey ''tutorial'', Arr [(StrKey ''skip'', Scalar (SBool False))]),
           (IntKey 7, Scalar (SStr ''x'')),
           (StrKey ''licenses'', Arr [(IntKey 0, Scalar (SStr ''cc-by'')),
                                      (IntKey 1, Scalar (SStr ''cc0''))])])
     (Arr [(StrKey ''licenses'', Arr [(IntKey 0, Scalar (SStr ''pd''))]),
           (IntKey 7, Scalar (SStr ''y''))])
   = Inr (Arr [(StrKey ''tutorial'', Arr [(StrKey ''skip'', Scalar (SBool False))]),
               (IntKey 0, Scalar (SStr ''y'')),
               (StrKey ''licenses'', Arr [(IntKey 0, Scalar (SStr ''pd''))])])"
  (is "mergeable (Arr ?a) (Arr ?a1) \<and> _ = Inr (Arr ?r)")
proof -
  have ok: "mergeable (Arr ?a) (Arr ?a1)" by (simp add: isAssoc_def array_keys_def)
  have d: "distinct (array_keys ?a)" by (simp add: array_keys_def)
  from arrayReplaceSanely_right_bias[OF ok d, of 1 "IntKey 7" "Scalar (SStr ''x'')"
      "Scalar (SStr ''y'')"]
  obtain m where m: "arrayReplaceSanely (Arr ?a) (Arr ?a1) = Inr (Arr m)"
    and m1: "m ! 1 = (IntKey 0, Scalar (SStr ''y''))"
    by (auto simp: array_keys_def)
  from arrayReplaceSanely_right_bias[OF ok d, of 2 "StrKey ''licenses''"
      "Arr [(IntKey 0, Scalar (SStr ''cc-by'')), (IntKey 1, Scalar (SStr ''cc0''))]"
      "Arr [(IntKey 0, Scalar (SStr ''pd''))]"]
  obtain m' where m': "arrayReplaceSanely (Arr ?a) (Arr ?a1) = Inr (Arr m')"
    and m2: "map_of m' (StrKey ''licenses'') = Some (Arr [(IntKey 0, Scalar (SStr ''pd''))])"
    by (auto simp: array_keys_def isAssoc_def)
  have "arrayReplaceSanely (Arr ?a) (Arr ?a1) = Inr (Arr ?r)"
    by (simp add: isAssoc_def array_keys_def array_merge_def array_diff_key_def)
  with ok m m1 m' m2 show ?thesis by simp
qed

text \<open>
  Under the integer key \<open>5\<close> of a base that is not renumbered the same does not hold:
  \<open>array_merge\<close> stores the overlay's value under \<open>0\<close>, and the result has no key
  \<open>5\<close>.
\<close>

theorem right_bias_integer_key_counterexample:
  "mergeable
     (Arr [(StrKey ''a'', Scalar (SInt 0)), (IntKey 5, Scalar (SInt 1))])
     (Arr [(StrKey ''a'', Scalar (SInt 0)), (IntKey 5, Scalar (SInt 2))])
   \<and> arrayReplaceSanely
     (Arr [(StrKey ''a'', Scalar (SInt 0)), (IntKey 5, Scalar (SInt 1))])
     (Arr [(StrKey ''a'', Scalar (SInt 0)), (IntKey 5, Scalar (SInt 2))])
     = Inr (Arr [(StrKey ''a'', Scalar (SInt 0)), (IntKey 0, Scalar (SInt 2))])
   \<and> map_of [(StrKey ''a'', Scalar (SInt 0)), (IntKey 5, Scalar (SInt 2))] (IntKey 5)
     = Some (Scalar (SInt 2))
   \<and> map_of [(StrKey ''a'', Scalar (SInt 0)), (IntKey 0, Scalar (SInt 2))] (IntKey 5)
     = None"
  by (simp add: isAssoc_def array_keys_def array_merge_def array_diff_key_def)

text \<open>
  Claim C2, by position. Let \<open>base\<close> (with distinct keys) and \<open>overlay\<close> be arrays on
  which the merge meets arrays only, and let \<open>base\<close> hold at position \<open>i\<close>, under a key
  \<open>k\<close> that \<open>overlay\<close> has too, an associative array. Then the merge of the two values
  under \<open>k\<close> returns, and the merge of \<open>base\<close> and \<open>overlay\<close> returns an array that
  holds its result at position \<open>i\<close>, under the key \<open>array_merge\<close> gives to this
  position. So the result maps \<open>k\<close> to the merge of the two values whenever \<open>k\<close> is
  that key: for every string key, and for every key of a renumbered \<open>base\<close>. (The
  claim's case is an \<open>overlay\<close> value that is an associative array as well.)
\<close>

theorem arrayReplaceSanely_recursive:
  assumes ok: "mergeable (Arr a) (Arr a1)"
    and d: "distinct (array_keys a)"
    and i: "i < length a" and e: "a ! i = (k, Arr sub)"
    and assoc: "isAssoc sub"
    and v1: "map_of a1 k = Some v1"
  shows "\<exists>m sm. arrayReplaceSanely (Arr a) (Arr a1) = Inr (Arr m)
           \<and> arrayReplaceSanely (Arr sub) v1 = Inr sm
           \<and> i < length m
           \<and> m ! i = (renumber 0 (array_keys a) ! i, sm)
           \<and> (renumber 0 (array_keys a) ! i = k \<or> is_string k \<or> renumbered a
                 \<longrightarrow> map_of m k = Some sm)"
proof -
  from ok returns_aux(1) obtain r where r: "arrayReplaceSanely (Arr a) (Arr a1) = Inr r"
    by blast
  from arrayReplaceSanely_InrD[OF r] obtain newArray where
    loop: "replace_loop a a1 [] = Inr newArray" and
    m: "r = Arr (array_merge newArray (array_diff_key a1 a))" by auto
  let ?m = "array_merge newArray (array_diff_key a1 a)"
  from d have d': "distinct (map fst a)" by (simp add: array_keys_def)
  from i e have mem: "(k, Arr sub) \<in> set a" by (metis nth_mem)
  from replace_loop_entry[OF loop d' mem] v1 assoc
  obtain sm where sm: "arrayReplaceSanely (Arr sub) v1 = Inr sm"
    and new: "map_of newArray k = Some sm" by auto
  from new e have "snd (newArray ! i) = sm"
    using replace_loop_position[OF loop d' i] by simp
  with merged_position[OF loop d' i] have
    len: "i < length ?m" and pos: "?m ! i = (renumber 0 (array_keys a) ! i, sm)"
    by (simp_all add: array_keys_def)
  have "distinct (map fst ?m)"
    using array_merge_result[of newArray "array_diff_key a1 a"]
    by (simp add: renumbered_def array_keys_def)
  from nth_map_of[OF this len] pos kept_key[OF i e]
  have "renumber 0 (array_keys a) ! i = k \<or> is_string k \<or> renumbered a
          \<longrightarrow> map_of ?m k = Some sm" by auto
  with r m sm len pos show ?thesis by simp
qed

text \<open>The settings under the key \<open>3\<close> are merged key by key and stored under the
  key \<open>0\<close>.\<close>

theorem recursive_witness:
  "mergeable
     (Arr [(IntKey 3, Arr [(StrKey ''skip'', Scalar (SBool False)),
                           (StrKey ''width'', Scalar (SInt 720))]),
           (StrKey ''debug'', Scalar (SBool False))])
     (Arr [(IntKey 3, Arr [(StrKey ''skip'', Scalar (SBool True)),
                           (StrKey ''helpdeskCoords'', Scalar (SStr ''27,1319''))])])
   \<and> arrayReplaceSanely
       (Arr [(StrKey ''skip'', Scalar (SBool False)), (StrKey ''width'', Scalar (SInt 720))])
       (Arr [(StrKey ''skip'', Scalar (SBool True)),
             (StrKey ''helpdeskCoords'', Scalar (SStr ''27,1319''))])
     = Inr (Arr [(StrKey ''skip'', Scalar (SBool True)), (StrKey ''width'', Scalar (SInt 720)),
                 (StrKey ''helpdeskCoords'', Scalar (SStr ''27,1319''))])
   \<and> arrayReplaceSanely
       (Arr [(IntKey 3, Arr [(StrKey ''skip'', Scalar (SBool False)),
                             (StrKey ''width'', Scalar (SInt 720))]),
             (StrKey ''debug'', Scalar (SBool False))])
       (Arr [(IntKey 3, Arr [(StrKey ''skip'', Scalar (SBool True)),
                             (StrKey ''helpdeskCoords'', Scalar (SStr ''27,1319''))])])
     = Inr (Arr [(IntKey 0,
                    Arr [(StrKey ''skip'', Scalar (SBool True)),
                         (StrKey ''width'', Scalar (SInt 720)),
                         (StrKey ''helpdeskCoords'', Scalar (SStr ''27,1319''))]),
                 (StrKey ''debug'', Scalar (SBool False))])"
  (is "mergeable (Arr ?a) (Arr ?a1) \<and> arrayReplaceSanely (Arr ?sub) ?v1 = Inr ?sm \<and> _")
proof -
  have ok: "mergeable (Arr ?a) (Arr ?a1)" by (simp add: isAssoc_def array_keys_def)
  have d: "distinct (array_keys ?a)" by (simp add: array_keys_def)
  from arrayReplaceSanely_recursive[OF ok d, of 0 "IntKey 3" ?sub ?v1]
  obtain m sm where "arrayReplaceSanely (Arr ?a) (Arr ?a1) = Inr (Arr m)"
    and "arrayReplaceSanely (Arr ?sub) ?v1 = Inr sm"
    and "m ! 0 = (IntKey 0, sm)"
    by (auto simp: isAssoc_def array_keys_def)
  moreover have "arrayReplaceSanely (Arr ?sub) ?v1 = Inr ?sm"
    by (simp add: isAssoc_def array_keys_def array_merge_def array_diff_key_def)
  moreover have "arrayReplaceSanely (Arr ?a) (Arr ?a1) =
      Inr (Arr [(IntKey 0, ?sm), (StrKey ''debug'', Scalar (SBool False))])"
    by (simp add: isAssoc_def array_keys_def array_merge_def array_diff_key_def)
  ultimately show ?thesis using ok by simp
qed

text \<open>
  Under the integer key \<open>5\<close> both arrays hold an associative array, and the merge of
  the two is stored under the key \<open>0\<close>: the result has no key \<open>5\<close>.
\<close>

theorem recursive_integer_key_counterexample:
  "arrayReplaceSanely
     (Arr [(StrKey ''a'', Scalar (SInt 0)), (IntKey 5, Arr [(StrKey ''x'', Scalar (SInt 1))])])
     (Arr [(IntKey 5, Arr [(StrKey ''x'', Scalar (SInt 2))])])
     = Inr (Arr [(StrKey ''a'', Scalar (SInt 0)),
                 (IntKey 0, Arr [(StrKey ''x'', Scalar (SInt 2))])])
   \<and> arrayReplaceSanely (Arr [(StrKey ''x'', Scalar (SInt 1))])
                          (Arr [(StrKey ''x'', Scalar (SInt 2))])
     = Inr (Arr [(StrKey ''x'', Scalar (SInt 2))])
   \<and> map_of [(StrKey ''a'', Scalar (SInt 0)),
             (IntKey 0, Arr [(StrKey ''x'', Scalar (SInt 2))])] (IntKey 5) = None"
  by (simp add: isAssoc_def array_keys_def array_merge_def array_diff_key_def)

text \<open>
  Claim C3, with the renumbering. Let \<open>base\<close> and \<open>overlay\<close> be arrays with distinct
  keys on which the merge meets arrays only. The merge returns an array with distinct
  keys; they are the keys of \<open>base\<close> in the order of \<open>base\<close>, then the keys of
  \<open>overlay\<close> that \<open>base\<close> has not in the order of \<open>overlay\<close>, with the integer keys of
  this sequence replaced by 0, 1, 2, ... from left to right. When all keys of both
  arrays are strings, the keys of the result are this sequence itself.
\<close>

theorem arrayReplaceSanely_keys:
  assumes ok: "mergeable (Arr a) (Arr a1)"
    and d: "distinct (array_keys a)" and d1: "distinct (array_keys a1)"
  shows "\<exists>m. arrayReplaceSanely (Arr a) (Arr a1) = Inr (Arr m)
           \<and> array_keys m =
               renumber 0 (array_keys a @ filter (\<lambda>k. k \<notin> set (array_keys a)) (array_keys a1))
           \<and> distinct (array_keys m)
           \<and> (list_all is_string (array_keys a @ array_keys a1) \<longrightarrow>
                array_keys m = array_keys a @ filter (\<lambda>k. k \<notin> set (array_keys a)) (array_keys a1))"
proof -
  let ?only = "filter (\<lambda>k. k \<notin> set (array_keys a)) (array_keys a1)"
  from ok returns_aux(1) obtain r where r: "arrayReplaceSanely (Arr a) (Arr a1) = Inr r"
    by blast
  from arrayReplaceSanely_InrD[OF r] obtain newArray where
    loop: "replace_loop a a1 [] = Inr newArray" and
    m: "r = Arr (array_merge newArray (array_diff_key a1 a))" by auto
  from d have d': "distinct (map fst a)" by (simp add: array_keys_def)
  from replace_loop_keys[OF loop d'] have keys: "map fst newArray = array_keys a"
    by (simp add: array_keys_def)
  have dall: "distinct (array_keys a @ ?only)" using d d1 by auto
  then have ds: "distinct (filter is_string (array_keys a @ ?only))"
    by (rule distinct_filter)
  have k: "array_keys (array_merge newArray (array_diff_key a1 a)) = renumber 0 (array_keys a @ ?only)"
    using merge_into_keys[of "newArray @ array_diff_key a1 a" "[]" 0] ds
    by (simp add: array_merge_def array_keys_def[of "array_merge_into _ _ _"] keys diff_key_keys)
  have dist: "distinct (renumber 0 (array_keys a @ ?only))"
    using ds by (rule renumber_distinct)
  have str: "list_all is_string (array_keys a @ array_keys a1) \<Longrightarrow>
      renumber 0 (array_keys a @ ?only) = array_keys a @ ?only"
    by (rule renumber_strings) (auto simp: list_all_iff)
  from r m k dist str show ?thesis by auto
qed

text \<open>The keys of the defaults come first, then the key only the site sets.\<close>

theorem keys_witness:
  "mergeable
     (Arr [(StrKey ''debug'', Scalar (SBool False)), (StrKey ''maxUploads'', Scalar (SInt 50))])
     (Arr [(StrKey ''altUploadForm'', Scalar (SStr ''Special:Upload'')),
           (StrKey ''debug'', Scalar (SBool True))])
   \<and> arrayReplaceSanely
     (Arr [(StrKey ''debug'', Scalar (SBool False)), (StrKey ''maxUploads'', Scalar (SInt 50))])
     (Arr [(StrKey ''altUploadForm'', Scalar (SStr ''Special:Upload'')),
           (StrKey ''debug'', Scalar (SBool True))])
     = Inr (Arr [(StrKey ''debug'', Scalar (SBool True)),
                 (StrKey ''maxUploads'', Scalar (SInt 50)),
                 (StrKey ''altUploadForm'', Scalar (SStr ''Special:Upload''))])
   \<and> array_keys [(StrKey ''debug'', Scalar (SBool True)),
                 (StrKey ''maxUploads'', Scalar (SInt 50)),
                 (StrKey ''altUploadForm'', Scalar (SStr ''Special:Upload''))]
     = [StrKey ''debug'', StrKey ''maxUploads'', StrKey ''altUploadForm'']"
  (is "mergeable (Arr ?a) (Arr ?a1) \<and> _ = Inr (Arr ?r) \<and> _")
proof -
  have ok: "mergeable (Arr ?a) (Arr ?a1)" by (simp add: isAssoc_def array_keys_def)
  from arrayReplaceSanely_keys[OF ok]
  obtain m where "arrayReplaceSanely (Arr ?a) (Arr ?a1) = Inr (Arr m)"
    and "array_keys m = [StrKey ''debug'', StrKey ''maxUploads'', StrKey ''altUploadForm'']"
    by (auto simp: array_keys_def)
  moreover have "arrayReplaceSanely (Arr ?a) (Arr ?a1) = Inr (Arr ?r)"
    by (simp add: isAssoc_def array_keys_def array_merge_def array_diff_key_def)
  ultimately show ?thesis using ok by simp
qed

text \<open>The key \<open>7\<close> of the overlay is no key of the result: its value is stored under
  the key \<open>0\<close>.\<close>

theorem keys_integer_key_counterexample:
  "arrayReplaceSanely
     (Arr [(StrKey ''a'', Scalar (SInt 1))])
     (Arr [(IntKey 7, Scalar (SStr ''x''))])
     = Inr (Arr [(StrKey ''a'', Scalar (SInt 1)), (IntKey 0, Scalar (SStr ''x''))])
   \<and> IntKey 7 \<in> set (array_keys [(IntKey 7, Scalar (SStr ''x''))])
   \<and> IntKey 7 \<notin> set (array_keys [(StrKey ''a'', Scalar (SInt 1)),
                                    (IntKey 0, Scalar (SStr ''x''))])"
  by (simp add: isAssoc_def array_keys_def array_merge_def array_diff_key_def)

text \<open>
  Claim C7, for renumbered trees. Let \<open>x\<close> be a renumbered array (distinct keys, the
  integer keys 0, 1, 2, ... in their order; in particular any array whose keys are
  distinct strings) whose values are scalars, arrays without string keys, or
  associative arrays of this kind again, at every depth. Then the merge of \<open>x\<close> with
  itself returns \<open>x\<close>.
\<close>

theorem arrayReplaceSanely_idempotent:
  assumes "renumbered a" and "\<forall>(k, v) \<in> set a. merge_stable v"
  shows "arrayReplaceSanely (Arr a) (Arr a) = Inr (Arr a)"
  using idempotent_aux[OF assms] by simp

theorem idempotent_witness:
  "arrayReplaceSanely
     (Arr [(StrKey ''debug'', Scalar (SBool False)),
           (StrKey ''licensing'',
              Arr [(StrKey ''defaultType'', Scalar (SStr ''ownwork'')),
                   (StrKey ''ownWork'',
                      Arr [(StrKey ''type'', Scalar (SStr ''or'')),
                           (StrKey ''licenses'',
                              Arr [(IntKey 0, Scalar (SStr ''cc-by-sa-4.0'')),
                                   (IntKey 1, Scalar (SStr ''cc0''))])])])])
     (Arr [(StrKey ''debug'', Scalar (SBool False)),
           (StrKey ''licensing'',
              Arr [(StrKey ''defaultType'', Scalar (SStr ''ownwork'')),
                   (StrKey ''ownWork'',
                      Arr [(StrKey ''type'', Scalar (SStr ''or'')),
                           (StrKey ''licenses'',
                              Arr [(IntKey 0, Scalar (SStr ''cc-by-sa-4.0'')),
                                   (IntKey 1, Scalar (SStr ''cc0''))])])])])
   = Inr (Arr [(StrKey ''debug'', Scalar (SBool False)),
           (StrKey ''licensing'',
              Arr [(StrKey ''defaultType'', Scalar (SStr ''ownwork'')),
                   (StrKey ''ownWork'',
                      Arr [(StrKey ''type'', Scalar (SStr ''or'')),
                           (StrKey ''licenses'',
                              Arr [(IntKey 0, Scalar (SStr ''cc-by-sa-4.0'')),
                                   (IntKey 1, Scalar (SStr ''cc0''))])])])])"
  by (rule arrayReplaceSanely_idempotent)
     (simp_all add: renumbered_def array_keys_def isAssoc_def)

text \<open>A tree with the integer key \<open>5\<close> beside a string key is not a fixed point: the
  merge with itself stores the value of \<open>5\<close> under \<open>0\<close>.\<close>

theorem idempotent_integer_key_counterexample:
  "arrayReplaceSanely
     (Arr [(StrKey ''a'', Scalar (SInt 1)), (IntKey 5, Scalar (SInt 2))])
     (Arr [(StrKey ''a'', Scalar (SInt 1)), (IntKey 5, Scalar (SInt 2))])
     = Inr (Arr [(StrKey ''a'', Scalar (SInt 1)), (IntKey 0, Scalar (SInt 2))])
   \<and> arrayReplaceSanely
     (Arr [(StrKey ''a'', Scalar (SInt 1)), (IntKey 5, Scalar (SInt 2))])
     (Arr [(StrKey ''a'', Scalar (SInt 1)), (IntKey 5, Scalar (SInt 2))])
     \<noteq> Inr (Arr [(StrKey ''a'', Scalar (SInt 1)), (IntKey 5, Scalar (SInt 2))])"
  by (simp add: isAssoc_def array_keys_def array_merge_def array_diff_key_def)

section \<open>The claims about \<open>getConfig\<close>\<close>

lemma merge_defaults_invariant:
  "base_invariant st \<Longrightarrow> merge_defaults env st = Inr st1 \<Longrightarrow>
   mergedConfig st1 \<and> (\<exists>m. wgUploadWizardConfig st1 = Arr m \<and> renumbered m)"
proof (cases "mergedConfig st")
  case True
  assume "base_invariant st" "merge_defaults env st = Inr st1"
  with True show ?thesis
    by (auto simp: merge_defaults_def base_invariant_def split: val.splits)
next
  case False
  assume "merge_defaults env st = Inr st1"
  with False obtain merged where
    m: "arrayReplaceSanely (getDefaultConfig env) (wgUploadWizardConfig st) = Inr merged"
    and st1: "st1 = st\<lparr>wgUploadWizardConfig := merged, mergedConfig := True\<rparr>"
    by (auto simp: merge_defaults_def split: sum.splits)
  from arrayReplaceSanely_result[OF m] st1 show ?thesis by auto
qed

lemma merge_campaign_invariant:
  "merge_campaign env campaignName st = Inr st2 \<Longrightarrow> mergedConfig st \<Longrightarrow>
   \<exists>m. wgUploadWizardConfig st = Arr m \<and> renumbered m \<Longrightarrow>
   mergedConfig st2 \<and> (\<exists>m. wgUploadWizardConfig st2 = Arr m \<and> renumbered m)"
  by (cases campaignName)
     (auto simp: merge_campaign_def split: sum.splits dest: arrayReplaceSanely_result)

text \<open>Every call of \<open>getConfig\<close> keeps the invariant of the global.\<close>

lemma getConfig_base_invariant:
  assumes "base_invariant st"
  shows "base_invariant (snd (getConfig env campaignName st))"
proof (cases "merge_defaults env st")
  case (Inl e)
  with assms show ?thesis by (simp add: getConfig_def)
next
  case (Inr st1)
  from merge_defaults_invariant[OF assms Inr] have
    st1: "mergedConfig st1" "\<exists>m. wgUploadWizardConfig st1 = Arr m \<and> renumbered m" by auto
  show ?thesis
  proof (cases "merge_campaign env campaignName st1")
    case (Inl e)
    with Inr st1 show ?thesis by (auto simp: getConfig_def base_invariant_def)
  next
    case st2: (Inr st2)
    from merge_campaign_invariant[OF st2 st1] Inr st2 show ?thesis
      by (auto simp: getConfig_def base_invariant_def)
  qed
qed

lemma getConfig_empty_override:
  assumes e: "getCampaignConfig env (Some name) = Arr []" and inv: "base_invariant st"
  shows "getConfig env (Some name) st = getConfig env None st"
proof (cases "merge_defaults env st")
  case (Inl e)
  then show ?thesis by (simp add: getConfig_def)
next
  case (Inr st1)
  from merge_defaults_invariant[OF inv Inr] obtain m where
    m: "wgUploadWizardConfig st1 = Arr m" "renumbered m" by auto
  from m(2) have "arrayReplaceSanely (Arr m) (Arr []) = Inr (Arr m)"
    by (rule empty_overlay_renumbered)
  then have "merge_campaign env (Some name) st1 = Inr (st1\<lparr>wgUploadWizardConfig := Arr m\<rparr>)"
    by (simp add: merge_campaign_def e m(1) del: arrayReplaceSanely.simps)
  also have "st1\<lparr>wgUploadWizardConfig := Arr m\<rparr> = st1" using m(1) by simp
  finally show ?thesis using Inr by (simp add: getConfig_def merge_campaign_def)
qed

text \<open>
  Claim C8, for renumbered configurations. If the campaign is not found, or is found
  and not enabled, then \<open>getCampaignConfig\<close> returns the empty array (it has no error
  to raise); merging this override over a renumbered array (in particular over any
  array whose keys are distinct strings) returns that array; and in every state that
  satisfies the invariant of the global, so before the first call and after every
  call, \<open>getConfig\<close> returns for this campaign what it returns for no campaign, and
  leaves the same state.
\<close>

theorem missing_campaign_no_op:
  assumes "newFromName env name = None
           \<or> (\<exists>c. newFromName env name = Some c \<and> \<not> getIsEnabled c)"
  shows "getCampaignConfig env (Some name) = Arr []
         \<and> (\<forall>a. renumbered a \<longrightarrow>
                arrayReplaceSanely (Arr a) (getCampaignConfig env (Some name)) = Inr (Arr a))
         \<and> (\<forall>st. base_invariant st \<longrightarrow>
                getConfig env (Some name) st = getConfig env None st)"
proof -
  from assms have e: "getCampaignConfig env (Some name) = Arr []"
    by (auto simp: getCampaignConfig_def)
  have "arrayReplaceSanely (Arr a) (getCampaignConfig env (Some name)) = Inr (Arr a)"
    if "renumbered a" for a
    using that by (simp only: e empty_overlay_renumbered)
  with e getConfig_empty_override[OF e] show ?thesis by blast
qed

text \<open>The campaign \<open>wlm-2011\<close> exists and is not enabled; the first call of
  \<open>getConfig\<close> for it returns the defaults with the site's setting.\<close>

theorem missing_campaign_witness:
  "newFromName
     \<lparr>getDefaultConfig = Arr [(StrKey ''debug'', Scalar (SBool False)),
                              (StrKey ''maxUploads'', Scalar (SInt 50))],
      newFromName = [''wlm-2011'' \<mapsto>
        \<lparr>getIsEnabled = False,
         getParsedConfig = Arr [(StrKey ''debug'', Scalar (SBool True))]\<rparr>]\<rparr> ''wlm-2011''
     = Some \<lparr>getIsEnabled = False,
             getParsedConfig = Arr [(StrKey ''debug'', Scalar (SBool True))]\<rparr>
   \<and> getConfig
       \<lparr>getDefaultConfig = Arr [(StrKey ''debug'', Scalar (SBool False)),
                                (StrKey ''maxUploads'', Scalar (SInt 50))],
        newFromName = [''wlm-2011'' \<mapsto>
          \<lparr>getIsEnabled = False,
           getParsedConfig = Arr [(StrKey ''debug'', Scalar (SBool True))]\<rparr>]\<rparr>
       (Some ''wlm-2011'')
       \<lparr>wgUploadWizardConfig = Arr [(StrKey ''maxUploads'', Scalar (SInt 10))],
        mergedConfig = False, urlConfig = []\<rparr>
     = (Inr (Arr [(StrKey ''debug'', Scalar (SBool False)),
                  (StrKey ''maxUploads'', Scalar (SInt 10))]),
        \<lparr>wgUploadWizardConfig = Arr [(StrKey ''debug'', Scalar (SBool False)),
                                     (StrKey ''maxUploads'', Scalar (SInt 10))],
         mergedConfig = True, urlConfig = []\<rparr>)"
  (is "newFromName ?env ?name = Some ?c \<and> getConfig ?env (Some ?name) ?st = ?r")
proof -
  have c: "newFromName ?env ?name = Some ?c" by simp
  then have "newFromName ?env ?name = None
      \<or> (\<exists>c. newFromName ?env ?name = Some c \<and> \<not> getIsEnabled c)" by simp
  from missing_campaign_no_op[OF this]
  have "\<forall>st. base_invariant st \<longrightarrow> getConfig ?env (Some ?name) st = getConfig ?env None st"
    by blast
  moreover have "base_invariant ?st" by (simp add: base_invariant_def)
  ultimately have "getConfig ?env (Some ?name) ?st = getConfig ?env None ?st" by blast
  also have "getConfig ?env None ?st = ?r"
    by (simp add: getConfig_def merge_defaults_def merge_campaign_def isAssoc_def
        array_keys_def array_merge_def array_diff_key_def)
  finally show ?thesis using c by blast
qed

text \<open>A configuration with the integer key \<open>3\<close> beside a string key changes under the
  empty override of a campaign that is not found.\<close>

theorem missing_campaign_integer_key_counterexample:
  "getCampaignConfig \<lparr>getDefaultConfig = Arr [], newFromName = Map.empty\<rparr> (Some ''none'')
     = Arr []
   \<and> arrayReplaceSanely
       (Arr [(StrKey ''debug'', Scalar (SBool False)), (IntKey 3, Scalar (SStr ''x''))])
       (getCampaignConfig \<lparr>getDefaultConfig = Arr [], newFromName = Map.empty\<rparr> (Some ''none''))
     = Inr (Arr [(StrKey ''debug'', Scalar (SBool False)), (IntKey 0, Scalar (SStr ''x''))])
   \<and> Arr [(StrKey ''debug'', Scalar (SBool False)), (IntKey 0, Scalar (SStr ''x''))]
     \<noteq> Arr [(StrKey ''debug'', Scalar (SBool False)), (IntKey 3, Scalar (SStr ''x''))]"
  by (simp add: getCampaignConfig_def isAssoc_def array_keys_def array_merge_def
      array_diff_key_def)

text \<open>
  Claim C9 does not hold of \<open>getConfig\<close>: the campaign step assigns its result to the
  global \<open>$wgUploadWizardConfig\<close>, which is the memoized merge of defaults and site
  settings that every later call starts from. With the default \<open>debug => false\<close>, no
  site or URL settings and the enabled campaign \<open>wlm\<close> that sets \<open>debug => true\<close>: a
  first call without campaign returns \<open>debug => false\<close>; after a call for \<open>wlm\<close> the
  global holds \<open>debug => true\<close>, and a call without campaign returns \<open>debug => true\<close>.
\<close>

theorem getConfig_campaign_leaks:
  "fst (getConfig
          \<lparr>getDefaultConfig = Arr [(StrKey ''debug'', Scalar (SBool False))],
           newFromName = [''wlm'' \<mapsto>
             \<lparr>getIsEnabled = True,
              getParsedConfig = Arr [(StrKey ''debug'', Scalar (SBool True))]\<rparr>]\<rparr>
          None
          \<lparr>wgUploadWizardConfig = Arr [], mergedConfig = False, urlConfig = []\<rparr>)
     = Inr (Arr [(StrKey ''debug'', Scalar (SBool False))])
   \<and> snd (getConfig
          \<lparr>getDefaultConfig = Arr [(StrKey ''debug'', Scalar (SBool False))],
           newFromName = [''wlm'' \<mapsto>
             \<lparr>getIsEnabled = True,
              getParsedConfig = Arr [(StrKey ''debug'', Scalar (SBool True))]\<rparr>]\<rparr>
          (Some ''wlm'')
          \<lparr>wgUploadWizardConfig = Arr [], mergedConfig = False, urlConfig = []\<rparr>)
     = \<lparr>wgUploadWizardConfig = Arr [(StrKey ''debug'', Scalar (SBool True))],
        mergedConfig = True, urlConfig = []\<rparr>
   \<and> fst (getConfig
          \<lparr>getDefaultConfig = Arr [(StrKey ''debug'', Scalar (SBool False))],
           newFromName = [''wlm'' \<mapsto>
             \<lparr>getIsEnabled = True,
              getParsedConfig = Arr [(StrKey ''debug'', Scalar (SBool True))]\<rparr>]\<rparr>
          None
          \<lparr>wgUploadWizardConfig = Arr [(StrKey ''debug'', Scalar (SBool True))],
           mergedConfig = True, urlConfig = []\<rparr>)
     = Inr (Arr [(StrKey ''debug'', Scalar (SBool True))])"
  by (simp add: getConfig_def merge_defaults_def merge_campaign_def getCampaignConfig_def
      isAssoc_def array_keys_def array_merge_def array_diff_key_def)

section \<open>Properties of the license group\<close>

subsection \<open>Templates and wikitext of one license\<close>

lemma fold_unshift: "fold unshift ps ts = rev ps @ ts"
  by (induction ps arbitrary: ts) (auto simp: unshift_def)

lemma join_empty: "join [] xs = concat xs"
  by (induction "[] :: string" xs rule: join.induct) auto

lemma getTemplates_known:
  "reg name = Some props \<Longrightarrow>
   getTemplates reg name = Inr (case templates props of None \<Rightarrow> [name] | Some ts \<Rightarrow> ts)"
  by (simp add: getTemplates_def getLicenseInfo_def split: option.splits)

text \<open>
  Claim C4 does not hold of \<open>getLicenceWikiText\<close>: the loop puts each entry of
  \<open>prependTemplates\<close> in front of the entries before it, so the entries come out in
  reverse order. This is the example of the constructor's documentation, which says
  \<open>{{pre}}{{pended}}{{fooLicense}}\<close>.
\<close>

theorem prependTemplates_reversed:
  "getLicenceWikiText \<lparr>licenses = [''fooLicense''], template = None,
                        prependTemplates = Some [''pre'', ''pended'']\<rparr>
     [''fooLicense'' \<mapsto> \<lparr>templates = None\<rparr>] ''fooLicense''
   = Inr ''{{pended}}{{pre}}{{fooLicense}}''"
  by (simp add: getLicenceWikiText_def getTemplates_def getLicenseInfo_def unshift_def)

text \<open>
  Claim C5. For a license of the registry and a configuration with a wrapper
  \<open>template\<close>, \<open>getLicenceWikiText\<close> returns one invocation: the wrapper, then the
  prepended templates (last entry first) and the templates of the license, joined by
  \<open>|\<close> between \<open>{{\<close> and \<open>}}\<close>.
\<close>

theorem wrapper_template_single_invocation:
  assumes "reg name = Some props" and "template cfg = Some w"
  shows "getLicenceWikiText cfg reg name =
           Inr (''{{''
                @ join ''|''
                    (w # (case prependTemplates cfg of None \<Rightarrow> [] | Some ps \<Rightarrow> rev ps)
                       @ (case templates props of None \<Rightarrow> [name] | Some ts \<Rightarrow> ts))
                @ ''}}'')"
  using assms
  by (simp add: getLicenceWikiText_def getTemplates_known fold_unshift unshift_def
      split: option.splits)

theorem wrapper_template_witness:
  "getLicenceWikiText \<lparr>licenses = [''cc-by-sa''], template = Some ''self'', prependTemplates = None\<rparr>
     [''cc-by-sa'' \<mapsto> \<lparr>templates = Some [''cc-by-sa-4.0'']\<rparr>] ''cc-by-sa''
   = Inr ''{{self|cc-by-sa-4.0}}''"
  using wrapper_template_single_invocation
    [of "[''cc-by-sa'' \<mapsto> \<lparr>templates = Some [''cc-by-sa-4.0'']\<rparr>]" "''cc-by-sa''"
        "\<lparr>templates = Some [''cc-by-sa-4.0'']\<rparr>"
        "\<lparr>licenses = [''cc-by-sa''], template = Some ''self'', prependTemplates = None\<rparr>" "''self''"]
  by simp

subsection \<open>The wikitext of a selection\<close>

lemma last_dropWhile: "dropWhile P xs \<noteq> [] \<Longrightarrow> last (dropWhile P xs) = last xs"
  by (induction xs) (auto split: if_splits)

lemma trim_ends:
  "trim s = [] \<or> (\<not> is_whitespace (hd (trim s)) \<and> \<not> is_whitespace (last (trim s)))"
proof (cases "trim s = []")
  case True
  then show ?thesis by simp
next
  case False
  let ?ys = "dropWhile is_whitespace s"
  let ?zs = "dropWhile is_whitespace (rev ?ys)"
  from False have zs: "?zs \<noteq> []" by (simp add: trim_def)
  have ys: "?ys \<noteq> []"
  proof
    assume e: "?ys = []"
    have "?zs = []" unfolding e by simp
    with zs show False by contradiction
  qed
  from zs have "\<not> is_whitespace (hd ?zs)" by (rule hd_dropWhile)
  then have l: "\<not> is_whitespace (last (trim s))" using zs by (simp add: trim_def last_rev)
  from zs have "last ?zs = last (rev ?ys)" by (rule last_dropWhile)
  also have "\<dots> = hd ?ys" using ys by (simp add: last_rev)
  finally have "hd (trim s) = hd ?ys" using zs by (simp add: trim_def hd_rev)
  moreover from ys have "\<not> is_whitespace (hd ?ys)" by (rule hd_dropWhile)
  ultimately show ?thesis using l by simp
qed

lemma map_throwing_total:
  "(\<And>x. x \<in> set xs \<Longrightarrow> \<exists>y. f x = Inr y) \<Longrightarrow>
   \<exists>ys. map_throwing f xs = Inr ys \<and> length ys = length xs"
proof (induction xs)
  case Nil
  then show ?case by simp
next
  case (Cons x xs)
  then obtain y ys where "f x = Inr y" "map_throwing f xs = Inr ys" "length ys = length xs"
    by (metis list.set_intros(1,2))
  then show ?case by simp
qed

lemma map_throwing_block:
  "map_throwing (getLicenceWikiText cfg reg) names = Inr markups \<Longrightarrow>
   map_throwing (licence_block cfg reg values) names =
     Inr (map2 (\<lambda>name markup. markup @
                  (case map_of values name of Some (JStr text) \<Rightarrow> CHR 0x0A # trim text | _ \<Rightarrow> []))
            names markups)"
proof (induction names arbitrary: markups)
  case Nil
  then show ?case by simp
next
  case (Cons n names)
  then show ?case
    by (auto simp: licence_block_def split: sum.splits option.splits js_value.splits)
qed

lemma set_Object_keys: "set (Object_keys values) = fst ` set values"
  by (auto simp: Object_keys_def)

lemma Object_keys_insertion_order:
  "\<forall>k \<in> fst ` set values. \<not> is_array_index k \<Longrightarrow> Object_keys values = map fst values"
  by (simp add: Object_keys_def filter_empty_conv)

text \<open>
  Claim C6, in the order of \<open>Object.keys\<close>. Let every key of the selection be a
  license of the registry. Then every call of \<open>getLicenceWikiText\<close> returns, and
  \<open>getWikiText\<close> returns the trimmed concatenation, without separator, of one block per
  key in the order of \<open>Object.keys\<close>: the markup of the license, followed for a string
  value by a newline and the trimmed string. The returned text is empty or begins and
  ends with a character that is no white space. \<open>Object.keys\<close> is the insertion order
  when no key is an array index.
\<close>

theorem wikiTextOf_blocks:
  assumes known: "\<forall>name \<in> fst ` set values. reg name \<noteq> None"
  shows "\<exists>markups.
           map_throwing (getLicenceWikiText cfg reg) (Object_keys values) = Inr markups
         \<and> wikiTextOf cfg reg values =
             Inr (trim (concat (map2 (\<lambda>name markup. markup @
                    (case map_of values name of
                       Some (JStr text) \<Rightarrow> CHR 0x0A # trim text | _ \<Rightarrow> []))
                  (Object_keys values) markups)))
         \<and> (\<forall>t. wikiTextOf cfg reg values = Inr t \<longrightarrow>
                t = [] \<or> (\<not> is_whitespace (hd t) \<and> \<not> is_whitespace (last t)))
         \<and> ((\<forall>k \<in> fst ` set values. \<not> is_array_index k) \<longrightarrow>
                Object_keys values = map fst values)"
proof -
  have "\<exists>y. getLicenceWikiText cfg reg x = Inr y" if "x \<in> set (Object_keys values)" for x
  proof -
    from that known obtain props where "reg x = Some props"
      by (auto simp: set_Object_keys)
    then show ?thesis by (simp add: getLicenceWikiText_def getTemplates_known Let_def)
  qed
  then obtain markups where
    m: "map_throwing (getLicenceWikiText cfg reg) (Object_keys values) = Inr markups"
    using map_throwing_total[of "Object_keys values" "getLicenceWikiText cfg reg"] by blast
  have w: "wikiTextOf cfg reg values =
             Inr (trim (concat (map2 (\<lambda>name markup. markup @
                    (case map_of values name of
                       Some (JStr text) \<Rightarrow> CHR 0x0A # trim text | _ \<Rightarrow> []))
                  (Object_keys values) markups)))"
    by (simp add: wikiTextOf_def map_throwing_block[OF m] join_empty)
  have e: "\<forall>t. wikiTextOf cfg reg values = Inr t \<longrightarrow>
                t = [] \<or> (\<not> is_whitespace (hd t) \<and> \<not> is_whitespace (last t))"
    unfolding w using trim_ends by auto
  from m w e Object_keys_insertion_order show ?thesis by blast
qed

text \<open>A selected license and a custom text with spaces around it.\<close>

theorem wikiTextOf_witness:
  "[''b'' \<mapsto> \<lparr>templates = None\<rparr>,
    ''custom-license'' \<mapsto> \<lparr>templates = None\<rparr>] ''b'' \<noteq> None
   \<and> [''b'' \<mapsto> \<lparr>templates = None\<rparr>,
      ''custom-license'' \<mapsto> \<lparr>templates = None\<rparr>] ''custom-license'' \<noteq> None
   \<and> wikiTextOf \<lparr>licenses = [''custom-license'', ''b''], template = None,
                  prependTemplates = None\<rparr>
       [''b'' \<mapsto> \<lparr>templates = None\<rparr>, ''custom-license'' \<mapsto> \<lparr>templates = None\<rparr>]
       [(''b'', JBool True), (''custom-license'', JStr ''  my text  '')]
     = Inr ''{{b}}{{custom-license}}\<newline>my text''"
  (is "?reg ''b'' \<noteq> None \<and> _ \<and> wikiTextOf ?cfg ?reg ?values = _")
proof -
  have known: "\<forall>name \<in> fst ` set ?values. ?reg name \<noteq> None" by simp
  have keys: "Object_keys ?values = [''b'', ''custom-license'']"
    by (simp add: Object_keys_def is_array_index_def is_digit_def)
  from wikiTextOf_blocks[OF known, of ?cfg] obtain markups where
    m: "map_throwing (getLicenceWikiText ?cfg ?reg) (Object_keys ?values) = Inr markups"
    and w: "wikiTextOf ?cfg ?reg ?values =
             Inr (trim (concat (map2 (\<lambda>name markup. markup @
                    (case map_of ?values name of
                       Some (JStr text) \<Rightarrow> CHR 0x0A # trim text | _ \<Rightarrow> []))
                  (Object_keys ?values) markups)))"
    by blast
  have "map_throwing (getLicenceWikiText ?cfg ?reg) (Object_keys ?values)
      = Inr [''{{b}}'', ''{{custom-license}}'']"
    unfolding keys by (simp add: getLicenceWikiText_def getTemplates_def getLicenseInfo_def)
  with m have mk: "markups = [''{{b}}'', ''{{custom-license}}'']" by simp
  have t: "trim (concat (map2 (\<lambda>name markup. markup @
                    (case map_of ?values name of
                       Some (JStr text) \<Rightarrow> CHR 0x0A # trim text | _ \<Rightarrow> []))
                  [''b'', ''custom-license''] [''{{b}}'', ''{{custom-license}}'']))
           = ''{{b}}{{custom-license}}\<newline>my text''"
    by (simp add: trim_def is_whitespace_def)
  show ?thesis unfolding w keys mk t by simp
qed

text \<open>
  The licenses \<open>10\<close> and \<open>9\<close> are selected in this order, and \<open>Object.keys\<close> lists
  \<open>9\<close> first: the block of \<open>9\<close> comes before the block of \<open>10\<close>.
\<close>

theorem wikiTextOf_insertion_order_counterexample:
  "map fst [(''10'', JBool True), (''9'', JBool True)] = [''10'', ''9'']
   \<and> Object_keys [(''10'', JBool True), (''9'', JBool True)] = [''9'', ''10'']
   \<and> wikiTextOf \<lparr>licenses = [''10'', ''9''], template = None, prependTemplates = None\<rparr>
       [''10'' \<mapsto> \<lparr>templates = None\<rparr>, ''9'' \<mapsto> \<lparr>templates = None\<rparr>]
       [(''10'', JBool True), (''9'', JBool True)]
     = Inr ''{{9}}{{10}}''
   \<and> getValue \<lparr>config = \<lparr>licenses = [''10'', ''9''], template = None,
                           prependTemplates = None\<rparr>,
                customInputs = (\<lambda>name. Absent),
                group = CheckboxMultiselectWidget [''10'', ''9'']\<rparr>
     = Inr [(''10'', JBool True), (''9'', JBool True)]"
  by (simp add: wikiTextOf_def licence_block_def getLicenceWikiText_def getTemplates_def getLicenseInfo_def
      Object_keys_def is_array_index_def is_digit_def decimal_value_def trim_def
      is_whitespace_def getValue_def selected_value_def set_property_def)

subsection \<open>The selection\<close>

lemma map_of_set_property:
  "map_of (set_property obj name v) =
     (if name = ''__proto__'' then map_of obj else (map_of obj)(name \<mapsto> v))"
  by (simp add: set_property_def map_of_assign)

lemma distinct_set_property:
  "distinct (map fst obj) \<Longrightarrow> distinct (map fst (set_property obj name v))"
  by (simp add: set_property_def keys_assign)

lemma set_selected_throws:
  "\<exists>name \<in> set selected. inputs name = Inherited \<Longrightarrow>
   set_selected inputs selected result = Inl TypeError"
proof (induction selected arbitrary: result)
  case Nil
  then show ?case by simp
next
  case (Cons name selected)
  show ?case
  proof (cases "inputs name = Inherited")
    case True
    then show ?thesis by (simp add: selected_value_def)
  next
    case False
    with Cons.prems have "\<exists>name \<in> set selected. inputs name = Inherited" by auto
    from Cons.IH[OF this] have rest: "\<And>result. set_selected inputs selected result = Inl TypeError" .
    show ?thesis
    proof (cases "selected_value inputs name")
      case (Inl e)
      then show ?thesis by (cases e) simp
    next
      case (Inr v)
      with rest show ?thesis by simp
    qed
  qed
qed

lemma set_selected_returns:
  "\<forall>name \<in> set selected. inputs name \<noteq> Inherited \<Longrightarrow> distinct (map fst result) \<Longrightarrow>
   \<exists>values. set_selected inputs selected result = Inr values
     \<and> distinct (map fst values)
     \<and> map_of values =
         (\<lambda>k. if k \<in> set selected \<and> k \<noteq> ''__proto__''
              then (case selected_value inputs k of Inl e \<Rightarrow> None | Inr v \<Rightarrow> Some v)
              else map_of result k)"
proof (induction selected arbitrary: result)
  case Nil
  then show ?case by simp
next
  case (Cons name selected)
  from Cons.prems(1) obtain v where v: "selected_value inputs name = Inr v"
    by (cases "inputs name") (auto simp: selected_value_def)
  from Cons.prems(1) have rest: "\<forall>name \<in> set selected. inputs name \<noteq> Inherited" by simp
  from Cons.prems(2) have d: "distinct (map fst (set_property result name v))"
    by (rule distinct_set_property)
  from Cons.IH[OF rest d] obtain vals where
    r: "set_selected inputs selected (set_property result name v) = Inr vals"
    and dv: "distinct (map fst vals)"
    and m: "map_of vals =
         (\<lambda>k. if k \<in> set selected \<and> k \<noteq> ''__proto__''
              then (case selected_value inputs k of Inl e \<Rightarrow> None | Inr v \<Rightarrow> Some v)
              else map_of (set_property result name v) k)"
    by blast
  have "map_of vals =
         (\<lambda>k. if k \<in> set (name # selected) \<and> k \<noteq> ''__proto__''
              then (case selected_value inputs k of Inl e \<Rightarrow> None | Inr v \<Rightarrow> Some v)
              else map_of result k)"
    unfolding m by (auto simp: fun_eq_iff map_of_set_property v)
  with r dv v show ?case by simp
qed

lemma selected_value_cases:
  "selected_value inputs name = Inr v \<Longrightarrow>
   (inputs name = Absent \<and> v = JBool True)
   \<or> (\<exists>text. inputs name = TextInput text \<and> v = JStr text)"
  by (cases "inputs name") (auto simp: selected_value_def)

lemma getValue_throws:
  "\<exists>name \<in> selected_names g. customInputs g name = Inherited \<Longrightarrow> getValue g = Inl TypeError"
  by (auto simp: getValue_def selected_names_def set_selected_throws selected_value_def
      split: group_widget.splits option.splits)

lemma getValue_returns:
  assumes "\<forall>name \<in> selected_names g. customInputs g name \<noteq> Inherited"
  shows "\<exists>values. getValue g = Inr values \<and> distinct (map fst values)
     \<and> map_of values =
         (\<lambda>k. if k \<in> selected_names g \<and> k \<noteq> ''__proto__''
              then (case selected_value (customInputs g) k of Inl e \<Rightarrow> None | Inr v \<Rightarrow> Some v)
              else None)"
proof (cases "group g")
  case (RadioSelectWidget selected)
  show ?thesis
  proof (cases selected)
    case None
    with RadioSelectWidget show ?thesis
      by (simp add: getValue_def selected_names_def)
  next
    case (Some name)
    with RadioSelectWidget assms obtain v where
      v: "selected_value (customInputs g) name = Inr v"
      by (cases "customInputs g name") (auto simp: selected_value_def selected_names_def)
    with RadioSelectWidget Some show ?thesis
      by (auto simp: getValue_def selected_names_def map_of_set_property
          distinct_set_property fun_eq_iff)
  qed
next
  case (CheckboxMultiselectWidget selected)
  with assms have "\<forall>name \<in> set selected. customInputs g name \<noteq> Inherited"
    by (simp add: selected_names_def)
  from set_selected_returns[OF this, of "[]"] obtain vals where
    "set_selected (customInputs g) selected [] = Inr vals" "distinct (map fst vals)"
    "map_of vals =
         (\<lambda>k. if k \<in> set selected \<and> k \<noteq> ''__proto__''
              then (case selected_value (customInputs g) k of Inl e \<Rightarrow> None | Inr v \<Rightarrow> Some v)
              else map_of [] k)"
    by fastforce
  with CheckboxMultiselectWidget show ?thesis
    by (simp add: getValue_def selected_names_def cong: if_cong)
qed

text \<open>
  Claim C10, for the calls that return, with a string that may be empty and without
  the name \<open>__proto__\<close>. If the name of a selected license reads as an inherited value
  in \<open>customInputs\<close>, \<open>getValue\<close> throws. In every other state of the group it returns
  a map with distinct keys, which are the names of the selected licenses other than
  \<open>__proto__\<close> (the assignment under this name is ignored); a license without text
  input has the value \<open>true\<close>, a license with a text input has the string the input
  holds; no value is \<open>false\<close>.
\<close>

theorem getValue_selection:
  "(if \<exists>name \<in> selected_names g. customInputs g name = Inherited
    then getValue g = Inl TypeError
    else \<exists>values. getValue g = Inr values
       \<and> distinct (map fst values)
       \<and> fst ` set values = selected_names g - {''__proto__''}
       \<and> (\<forall>(name, v) \<in> set values.
             (customInputs g name = Absent \<and> v = JBool True)
             \<or> (\<exists>text. customInputs g name = TextInput text \<and> v = JStr text))
       \<and> (\<forall>name. (name, JBool False) \<notin> set values))"
proof (cases "\<exists>name \<in> selected_names g. customInputs g name = Inherited")
  case True
  with getValue_throws[OF True] show ?thesis by simp
next
  case False
  then have ok: "\<forall>name \<in> selected_names g. customInputs g name \<noteq> Inherited" by simp
  from getValue_returns[OF ok] obtain vals where
    r: "getValue g = Inr vals" and d: "distinct (map fst vals)"
    and m: "map_of vals =
         (\<lambda>k. if k \<in> selected_names g \<and> k \<noteq> ''__proto__''
              then (case selected_value (customInputs g) k of Inl e \<Rightarrow> None | Inr v \<Rightarrow> Some v)
              else None)"
    by blast
  have total: "\<exists>v. selected_value (customInputs g) k = Inr v" if "k \<in> selected_names g" for k
    using ok that by (cases "customInputs g k") (auto simp: selected_value_def)
  have dom: "fst ` set vals = selected_names g - {''__proto__''}"
  proof -
    have "(map_of vals k \<noteq> None) = (k \<in> selected_names g \<and> k \<noteq> ''__proto__'')" for k
    proof (cases "k \<in> selected_names g \<and> k \<noteq> ''__proto__''")
      case True
      with total obtain v where "selected_value (customInputs g) k = Inr v" by blast
      with True show ?thesis by (simp add: m)
    next
      case False
      then show ?thesis by (auto simp: m)
    qed
    then have "dom (map_of vals) = selected_names g - {''__proto__''}"
      by (auto simp: dom_def)
    then show ?thesis by (simp add: dom_map_of_conv_image_fst)
  qed
  have e: "(customInputs g name = Absent \<and> v = JBool True)
         \<or> (\<exists>text. customInputs g name = TextInput text \<and> v = JStr text)"
    if "(name, v) \<in> set vals" for name v
  proof -
    from d that have "map_of vals name = Some v" by simp
    then have "selected_value (customInputs g) name = Inr v"
      unfolding m by (auto split: if_splits sum.splits)
    then show ?thesis by (rule selected_value_cases)
  qed
  have f: "(name, JBool False) \<notin> set vals" for name
    using e[of name "JBool False"] by auto
  from False r d dom e f show ?thesis by auto
qed

text \<open>Three of four licenses are selected, two of them with a custom text; one of
  these is named \<open>__proto__\<close> and gets no entry.\<close>

theorem getValue_witness:
  "getValue \<lparr>config = \<lparr>licenses = [''cc-by-sa-4.0'', ''cc0'', ''__proto__'', ''custom''],
                         template = None, prependTemplates = None\<rparr>,
              customInputs = (\<lambda>name. Absent)
                (''__proto__'' := TextInput ''{{PD}}'', ''custom'' := TextInput ''{{My license}}''),
              group = CheckboxMultiselectWidget [''cc-by-sa-4.0'', ''__proto__'', ''custom'']\<rparr>
     = Inr [(''cc-by-sa-4.0'', JBool True), (''custom'', JStr ''{{My license}}'')]
   \<and> selected_names \<lparr>config = \<lparr>licenses = [''cc-by-sa-4.0'', ''cc0'', ''__proto__'', ''custom''],
                         template = None, prependTemplates = None\<rparr>,
              customInputs = (\<lambda>name. Absent)
                (''__proto__'' := TextInput ''{{PD}}'', ''custom'' := TextInput ''{{My license}}''),
              group = CheckboxMultiselectWidget [''cc-by-sa-4.0'', ''__proto__'', ''custom'']\<rparr>
       - {''__proto__''}
     = {''cc-by-sa-4.0'', ''custom''}"
  (is "getValue ?g = Inr ?r \<and> _")
proof -
  have r: "getValue ?g = Inr ?r"
    by (simp add: getValue_def selected_value_def set_property_def)
  have "\<not> (\<exists>name \<in> selected_names ?g. customInputs ?g name = Inherited)"
    by (simp add: selected_names_def)
  with getValue_selection[of ?g] obtain vals where
    "getValue ?g = Inr vals" and "fst ` set vals = selected_names ?g - {''__proto__''}"
    by auto
  with r show ?thesis by auto
qed

text \<open>The option of the license \<open>custom\<close> is selected while its text input is empty:
  the value of \<open>custom\<close> is the empty string.\<close>

theorem getValue_empty_text_counterexample:
  "getValue \<lparr>config = \<lparr>licenses = [''custom''], template = None, prependTemplates = None\<rparr>,
              customInputs = (\<lambda>name. Absent)(''custom'' := TextInput ''''),
              group = RadioSelectWidget (Some ''custom'')\<rparr>
     = Inr [(''custom'', JStr '''')]"
  by (simp add: getValue_def selected_value_def set_property_def)

end
